theory Spec2Isabelle
  imports Main "HOL-Library.Word" "HOL-Library.Signed_Division"
begin

unbundle bit_operations_syntax

section \<open>Fatal conditions\<close>

text \<open>
  The interpreter of llreve (\<^verbatim>\<open>reve/dynamic/interpreter/lib/Interpreter.cpp\<close>) leaves a
  run in four ways besides returning: a failed \<^verbatim>\<open>assert\<close>, \<^verbatim>\<open>exit(1)\<close>, an exception
  that nothing catches (\<^verbatim>\<open>std::map::at\<close> on a missing key, \<^verbatim>\<open>mpz_class\<close> on a string
  that is no number), and the use of a null pointer or of an iterator past its end.
  Each is a value of \<open>error\<close>; a
  function that can fail returns \<open>error + 'a\<close> with \<open>Inl\<close> for the failure.
  \<^verbatim>\<open>logError\<close> and \<^verbatim>\<open>logErrorData\<close> only write to the error stream and return: wherever
  the source wants to stop after them it calls \<^verbatim>\<open>exit(1)\<close> itself (\<^verbatim>\<open>resolveValue\<close>,
  \<^verbatim>\<open>VarBool::unsafeIntVal\<close>). The stream is not part of the model.
\<close>

datatype error =
    AssertionFailed | Exit1 | OutOfRange | InvalidArgument | NullPointer | OutOfBounds

definition bind_result :: "error + 'a \<Rightarrow> ('a \<Rightarrow> error + 'b) \<Rightarrow> error + 'b" where
  "bind_result r f = (case r of Inl e \<Rightarrow> Inl e | Inr x \<Rightarrow> f x)"

section \<open>Fixed-width integers of LLVM\<close>

text \<open>
  \<^verbatim>\<open>llvm::APInt\<close>: a bit width and the bit pattern, kept as the natural number below
  \<open>2 ^ width\<close>. Only the operations the interpreter calls are modelled, with the
  assertions of LLVM on widths as \<open>AssertionFailed\<close>.
\<close>

datatype APInt = APInt (getBitWidth: nat) (getBits: nat)

definition ap_of_int :: "nat \<Rightarrow> int \<Rightarrow> APInt" where
  "ap_of_int w v = APInt w (nat (v mod 2 ^ w))"

text \<open>\<^verbatim>\<open>makeBoundedInt(width, value)\<close> of Helper.h: the APInt of that width holding value.\<close>

definition makeBoundedInt :: "nat \<Rightarrow> int \<Rightarrow> APInt" where
  "makeBoundedInt w v = ap_of_int w v"

text \<open>The bit pattern read as a two's-complement number.\<close>

definition signedValue :: "APInt \<Rightarrow> int" where
  "signedValue a =
     (if getBitWidth a = 0 \<or> getBits a < 2 ^ (getBitWidth a - 1) then int (getBits a)
      else int (getBits a) - 2 ^ getBitWidth a)"

text \<open>\<^verbatim>\<open>APInt::getSExtValue()\<close> returns an \<^verbatim>\<open>int64_t\<close> and asserts that the value has no more
  than 64 significant bits.\<close>

definition getSExtValue :: "APInt \<Rightarrow> error + int" where
  "getSExtValue a =
     (if - (2 ^ 63) \<le> signedValue a \<and> signedValue a < 2 ^ 63 then Inr (signedValue a)
      else Inl AssertionFailed)"

definition ap_trunc :: "nat \<Rightarrow> APInt \<Rightarrow> error + APInt" where
  "ap_trunc w a = (if w < getBitWidth a then Inr (APInt w (getBits a mod 2 ^ w))
                   else Inl AssertionFailed)"

definition ap_zext :: "nat \<Rightarrow> APInt \<Rightarrow> error + APInt" where
  "ap_zext w a = (if getBitWidth a < w then Inr (APInt w (getBits a)) else Inl AssertionFailed)"

definition ap_sext :: "nat \<Rightarrow> APInt \<Rightarrow> error + APInt" where
  "ap_sext w a = (if getBitWidth a < w then Inr (ap_of_int w (signedValue a))
                  else Inl AssertionFailed)"

definition ap_sextOrSelf :: "nat \<Rightarrow> APInt \<Rightarrow> APInt" where
  "ap_sextOrSelf w a = (if getBitWidth a < w then ap_of_int w (signedValue a) else a)"

definition ap_zextOrTrunc :: "nat \<Rightarrow> APInt \<Rightarrow> APInt" where
  "ap_zextOrTrunc w a = APInt w (getBits a mod 2 ^ w)"

definition ap_shl :: "APInt \<Rightarrow> nat \<Rightarrow> APInt" where
  "ap_shl a n = APInt (getBitWidth a) ((getBits a * 2 ^ n) mod 2 ^ getBitWidth a)"

definition ap_lshr :: "APInt \<Rightarrow> nat \<Rightarrow> APInt" where
  "ap_lshr a n = APInt (getBitWidth a) (getBits a div 2 ^ n)"

definition ap_ashr :: "APInt \<Rightarrow> nat \<Rightarrow> APInt" where
  "ap_ashr a n = ap_of_int (getBitWidth a) (signedValue a div 2 ^ n)"

definition ap_or :: "APInt \<Rightarrow> APInt \<Rightarrow> error + APInt" where
  "ap_or a b = (if getBitWidth a = getBitWidth b
                then Inr (APInt (getBitWidth a) (getBits a OR getBits b))
                else Inl AssertionFailed)"

section \<open>The Integer engine\<close>

text \<open>
  \<^verbatim>\<open>Integer\<close> (Integer.h) is not among the sources. The interpreter shows its shape: a
  tag \<^verbatim>\<open>type\<close> with the values \<^verbatim>\<open>IntType::Bounded\<close> and \<^verbatim>\<open>IntType::Unbounded\<close>, a field
  \<^verbatim>\<open>bounded\<close> that is an APInt and a field \<^verbatim>\<open>unbounded\<close> that is an \<^verbatim>\<open>mpz_class\<close>;
  \<^verbatim>\<open>Integer(APInt)\<close> builds the first and \<^verbatim>\<open>Integer(mpz_class)\<close> the second.
\<close>

datatype Integer = Bounded APInt | Unbounded int

text \<open>
  Modelled from the spec: the operations of Integer.h. Section 4.1 asks for the
  arithmetic, shifts, bitwise operations and the ten comparisons on both variants,
  with two's-complement wrap-around on bounded values, a fatal error for division by
  zero and a configuration error (here \<open>AssertionFailed\<close>) for mismatched operands.
\<close>

definition lift_Integer ::
  "(nat \<Rightarrow> APInt \<Rightarrow> APInt \<Rightarrow> int) \<Rightarrow> (int \<Rightarrow> int \<Rightarrow> int) \<Rightarrow> Integer \<Rightarrow> Integer \<Rightarrow> error + Integer" where
  "lift_Integer fb fu x y =
     (case (x, y) of
        (Bounded a, Bounded b) \<Rightarrow>
          if getBitWidth a = getBitWidth b
          then Inr (Bounded (ap_of_int (getBitWidth a) (fb (getBitWidth a) a b)))
          else Inl AssertionFailed
      | (Unbounded i, Unbounded j) \<Rightarrow> Inr (Unbounded (fu i j))
      | _ \<Rightarrow> Inl AssertionFailed)"

definition is_zero :: "Integer \<Rightarrow> bool" where
  "is_zero x = (case x of Bounded a \<Rightarrow> getBits a = 0 | Unbounded i \<Rightarrow> i = 0)"

definition Integer_add :: "Integer \<Rightarrow> Integer \<Rightarrow> error + Integer" where
  "Integer_add = lift_Integer (\<lambda>w a b. int (getBits a) + int (getBits b)) (+)"

definition Integer_sub :: "Integer \<Rightarrow> Integer \<Rightarrow> error + Integer" where
  "Integer_sub = lift_Integer (\<lambda>w a b. int (getBits a) - int (getBits b)) (-)"

definition Integer_mul :: "Integer \<Rightarrow> Integer \<Rightarrow> error + Integer" where
  "Integer_mul = lift_Integer (\<lambda>w a b. int (getBits a) * int (getBits b)) (*)"

definition Integer_sdiv :: "Integer \<Rightarrow> Integer \<Rightarrow> error + Integer" where
  "Integer_sdiv x y = (if is_zero y then Inl AssertionFailed
     else lift_Integer (\<lambda>w a b. signedValue a sdiv signedValue b) (sdiv) x y)"

definition Integer_udiv :: "Integer \<Rightarrow> Integer \<Rightarrow> error + Integer" where
  "Integer_udiv x y = (if is_zero y then Inl AssertionFailed
     else lift_Integer (\<lambda>w a b. int (getBits a div getBits b)) (sdiv) x y)"

definition Integer_srem :: "Integer \<Rightarrow> Integer \<Rightarrow> error + Integer" where
  "Integer_srem x y = (if is_zero y then Inl AssertionFailed
     else lift_Integer (\<lambda>w a b. signedValue a smod signedValue b) (smod) x y)"

definition Integer_urem :: "Integer \<Rightarrow> Integer \<Rightarrow> error + Integer" where
  "Integer_urem x y = (if is_zero y then Inl AssertionFailed
     else lift_Integer (\<lambda>w a b. int (getBits a mod getBits b)) (smod) x y)"

definition Integer_shl :: "Integer \<Rightarrow> Integer \<Rightarrow> error + Integer" where
  "Integer_shl = lift_Integer (\<lambda>w a b. int (getBits a) * 2 ^ getBits b) (\<lambda>i j. i * 2 ^ nat j)"

definition Integer_lshr :: "Integer \<Rightarrow> Integer \<Rightarrow> error + Integer" where
  "Integer_lshr = lift_Integer (\<lambda>w a b. int (getBits a) div 2 ^ getBits b) (\<lambda>i j. i div 2 ^ nat j)"

definition Integer_ashr :: "Integer \<Rightarrow> Integer \<Rightarrow> error + Integer" where
  "Integer_ashr = lift_Integer (\<lambda>w a b. signedValue a div 2 ^ getBits b) (\<lambda>i j. i div 2 ^ nat j)"

definition Integer_and :: "Integer \<Rightarrow> Integer \<Rightarrow> error + Integer" where
  "Integer_and = lift_Integer (\<lambda>w a b. int (getBits a AND getBits b)) (\<lambda>i j. i AND j)"

definition Integer_or :: "Integer \<Rightarrow> Integer \<Rightarrow> error + Integer" where
  "Integer_or = lift_Integer (\<lambda>w a b. int (getBits a OR getBits b)) (\<lambda>i j. i OR j)"

definition Integer_xor :: "Integer \<Rightarrow> Integer \<Rightarrow> error + Integer" where
  "Integer_xor = lift_Integer (\<lambda>w a b. int (getBits a XOR getBits b)) (\<lambda>i j. i XOR j)"

definition cmp_Integer ::
  "(int \<Rightarrow> int \<Rightarrow> bool) \<Rightarrow> bool \<Rightarrow> Integer \<Rightarrow> Integer \<Rightarrow> error + bool" where
  "cmp_Integer rel is_signed x y =
     (case (x, y) of
        (Bounded a, Bounded b) \<Rightarrow>
          if getBitWidth a = getBitWidth b
          then Inr (if is_signed then rel (signedValue a) (signedValue b)
                    else rel (int (getBits a)) (int (getBits b)))
          else Inl AssertionFailed
      | (Unbounded i, Unbounded j) \<Rightarrow> Inr (rel i j)
      | _ \<Rightarrow> Inl AssertionFailed)"

text \<open>Modelled from the spec: the width conversions and the pointer coercion of Integer.h
  (section 4.1; in bounded mode an address is 64 bits wide).\<close>

definition Integer_zext :: "nat \<Rightarrow> Integer \<Rightarrow> error + Integer" where
  "Integer_zext w x = (case x of Bounded a \<Rightarrow> map_sum id Bounded (ap_zext w a)
                                | Unbounded i \<Rightarrow> Inr (Unbounded i))"

definition Integer_sext :: "nat \<Rightarrow> Integer \<Rightarrow> error + Integer" where
  "Integer_sext w x = (case x of Bounded a \<Rightarrow> map_sum id Bounded (ap_sext w a)
                                | Unbounded i \<Rightarrow> Inr (Unbounded i))"

definition Integer_zextOrTrunc :: "nat \<Rightarrow> Integer \<Rightarrow> Integer" where
  "Integer_zextOrTrunc w x = (case x of Bounded a \<Rightarrow> Bounded (ap_zextOrTrunc w a)
                                       | Unbounded i \<Rightarrow> Unbounded i)"

definition asPointer :: "bool \<Rightarrow> Integer \<Rightarrow> Integer" where
  "asPointer BoundedFlag x =
     (case x of
        Bounded a \<Rightarrow> Bounded (ap_zextOrTrunc 64 a)
      | Unbounded i \<Rightarrow> if BoundedFlag then Bounded (makeBoundedInt 64 i) else Unbounded i)"

section \<open>Typed values, maps and states\<close>

text \<open>\<^verbatim>\<open>VarVal\<close> with its two subclasses \<^verbatim>\<open>VarInt\<close> and \<^verbatim>\<open>VarBool\<close>, and \<^verbatim>\<open>VarType\<close>.\<close>

datatype VarVal = VarInt Integer | VarBool bool

datatype VarType = VarType_Int | VarType_Bool

fun getType :: "VarVal \<Rightarrow> VarType" where
  "getType (VarInt i) = VarType_Int"
| "getType (VarBool b) = VarType_Bool"

text \<open>\<^verbatim>\<open>VarBool::unsafeIntVal\<close> logs and calls \<^verbatim>\<open>exit(1)\<close>.\<close>

fun unsafeIntVal :: "VarVal \<Rightarrow> error + Integer" where
  "unsafeIntVal (VarInt i) = Inr i"
| "unsafeIntVal (VarBool b) = Inl Exit1"

text \<open>
  A \<^verbatim>\<open>std::map\<close> is an association list with one entry per key. Lookup takes the first
  entry of a key; \<open>map_assign\<close> is \<^verbatim>\<open>m[k] = v\<close> (replace the entry, or add one);
  \<open>map_insert\<close> is \<^verbatim>\<open>m.insert({k, v})\<close>, which leaves an existing entry alone. The list
  order stands for the order in which C++ iterates; the C++ order is the key order,
  which for keys that are addresses of IR values is no property of the program.
\<close>

type_synonym ('k, 'v) std_map = "('k \<times> 'v) list"

fun map_assign :: "'k \<Rightarrow> 'v \<Rightarrow> ('k, 'v) std_map \<Rightarrow> ('k, 'v) std_map" where
  "map_assign k v [] = [(k, v)]"
| "map_assign k v ((k', v') # m) =
     (if k = k' then (k, v) # m else (k', v') # map_assign k v m)"

definition map_insert :: "'k \<Rightarrow> 'v \<Rightarrow> ('k, 'v) std_map \<Rightarrow> ('k, 'v) std_map" where
  "map_insert k v m = (case map_of m k of None \<Rightarrow> m @ [(k, v)] | Some u \<Rightarrow> m)"

definition map_at :: "('k, 'v) std_map \<Rightarrow> 'k \<Rightarrow> error + 'v" where
  "map_at m k = (case map_of m k of None \<Rightarrow> Inl OutOfRange | Some v \<Rightarrow> Inr v)"

text \<open>
  A value reference is the address of an IR value (\<^verbatim>\<open>const llvm::Value *\<close>). The
  sentinel \<^verbatim>\<open>ReturnName\<close> is the null pointer: \<^verbatim>\<open>valueName\<close> and \<^verbatim>\<open>stateToCBOR\<close> print the
  null key as \<^verbatim>\<open>"return"\<close>. A \<^verbatim>\<open>shared_ptr<VarVal>\<close> may be null, so a binding holds a
  \<open>VarVal option\<close>.
\<close>

datatype ValuePtr = nullptr | Ptr nat

definition ReturnName :: ValuePtr where
  "ReturnName = nullptr"

type_synonym Heap = "(Integer, Integer) std_map"

datatype 'k State = State (variables: "('k, VarVal option) std_map") (heap: Heap)

type_synonym FastState = "ValuePtr State"

definition set_variable :: "'k \<Rightarrow> VarVal option \<Rightarrow> 'k State \<Rightarrow> 'k State" where
  "set_variable k v s = State (map_assign k v (variables s)) (heap s)"

definition set_heap :: "Heap \<Rightarrow> 'k State \<Rightarrow> 'k State" where
  "set_heap h s = State (variables s) h"

text \<open>Dereferencing a \<^verbatim>\<open>shared_ptr<VarVal>\<close>.\<close>

definition deref :: "VarVal option \<Rightarrow> error + VarVal" where
  "deref p = (case p of None \<Rightarrow> Inl NullPointer | Some v \<Rightarrow> Inr v)"

text \<open>\<^verbatim>\<open>assert(p->getType() == VarType::Int); static_pointer_cast<VarInt>(p)->val\<close> and
  its boolean twin.\<close>

definition asInt :: "VarVal option \<Rightarrow> error + Integer" where
  "asInt p = bind_result (deref p)
     (\<lambda>v. case v of VarInt i \<Rightarrow> Inr i | VarBool b \<Rightarrow> Inl AssertionFailed)"

definition asBool :: "VarVal option \<Rightarrow> error + bool" where
  "asBool p = bind_result (deref p)
     (\<lambda>v. case v of VarBool b \<Rightarrow> Inr b | VarInt i \<Rightarrow> Inl AssertionFailed)"

section \<open>The intermediate representation\<close>

text \<open>
  What the interpreter reads of LLVM's IR. Values, blocks and functions are referred
  to by address (a natural number). An operand is an instruction or an argument (by
  address), an integer constant, the null pointer constant, or something else.
\<close>

datatype Type = IntegerTy nat | PointerTy | OtherTy

fun isIntegerTy :: "Type \<Rightarrow> nat \<Rightarrow> bool" where
  "isIntegerTy (IntegerTy w) n = (w = n)"
| "isIntegerTy t n = False"

fun getIntegerBitWidth :: "Type \<Rightarrow> error + nat" where
  "getIntegerBitWidth (IntegerTy w) = Inr w"
| "getIntegerBitWidth t = Inl AssertionFailed"

datatype Value =
    InstructionV nat
  | ArgumentV nat
  | ConstantInt APInt
  | ConstantPointerNull
  | OtherValue

datatype BinaryOps =
    Add | Sub | Mul | SDiv | UDiv | SRem | URem | Shl | LShr | AShr | And | Or | Xor
  | OtherBinaryOp

datatype Predicate =
    ICMP_EQ | ICMP_NE | ICMP_SGE | ICMP_SGT | ICMP_SLE | ICMP_SLT
  | ICMP_UGE | ICMP_UGT | ICMP_ULE | ICMP_ULT | OtherPredicate

datatype CastOps = ZExt | SExt | PtrToInt | IntToPtr | OtherCast

text \<open>
  An instruction starts with its own address, the key of its result in a state.
  \<open>CallInst\<close> carries both functions LLVM knows of a call: \<^verbatim>\<open>getFunction()\<close>, which
  \<^verbatim>\<open>llvm::Instruction\<close> defines as the function the instruction stands in, and
  \<^verbatim>\<open>getCalledFunction()\<close>, the function it calls. \<open>GetElementPtrInst\<close> carries, for each
  index operand, the size the layout gives the indexed type.
\<close>

datatype Instruction =
    BinaryOperator nat BinaryOps Type Value Value
  | ICmpInst nat Predicate Value Value
  | CastInst nat CastOps Type Type Value
  | GetElementPtrInst nat Value "(nat \<times> Value) list"
  | LoadInst nat Type Value
  | StoreInst nat Type Value Value
  | SelectInst nat Value Value Value
  | PHINode nat "(nat \<times> Value) list"
  | CallInst (self: nat) (getFunction: nat) (getCalledFunction: nat)
      (arg_operands: "Value list")
  | OtherInstruction nat

datatype TerminatorInst =
    ReturnInst "Value option"
  | BranchInst nat
  | CondBranchInst Value nat nat
  | SwitchInst Value "(APInt \<times> nat) list" nat
  | OtherTerminator

datatype BasicBlock =
  BasicBlock (blockGetName: string) (instructions: "Instruction list")
    (getTerminator: TerminatorInst)

datatype Function =
  Function (funGetName: string) (getArgumentList: "nat list") (getEntryBlock: nat)
    (getBasicBlocks: "(nat \<times> BasicBlock) list")

section \<open>Instructions\<close>

text \<open>\<^verbatim>\<open>resolveValue\<close>. In unbounded mode a constant wider than one bit goes through
  \<^verbatim>\<open>getSExtValue()\<close>. The null pointer constant is a bounded 64-bit zero in both modes.\<close>

definition resolveValue :: "bool \<Rightarrow> Value \<Rightarrow> FastState \<Rightarrow> error + VarVal option" where
  "resolveValue BoundedFlag val state =
     (case val of
        InstructionV p \<Rightarrow> map_at (variables state) (Ptr p)
      | ArgumentV p \<Rightarrow> map_at (variables state) (Ptr p)
      | ConstantInt c \<Rightarrow>
          if getBitWidth c = 1 then Inr (Some (VarBool (getBits c = 1)))
          else if \<not> BoundedFlag
          then bind_result (getSExtValue c) (\<lambda>i. Inr (Some (VarInt (Unbounded i))))
          else Inr (Some (VarInt (Bounded c)))
      | ConstantPointerNull \<Rightarrow> Inr (Some (VarInt (Bounded (makeBoundedInt 64 0))))
      | OtherValue \<Rightarrow> Inl Exit1)"

text \<open>\<^verbatim>\<open>resolveValue(...)->unsafeIntVal()\<close>.\<close>

definition resolveInt :: "bool \<Rightarrow> Value \<Rightarrow> FastState \<Rightarrow> error + Integer" where
  "resolveInt BoundedFlag val state =
     bind_result (resolveValue BoundedFlag val state)
       (\<lambda>p. bind_result (deref p) unsafeIntVal)"

text \<open>\<^verbatim>\<open>state.variables.at(v)\<close> for an operand: only instructions and arguments are keys.\<close>

definition variables_at :: "FastState \<Rightarrow> Value \<Rightarrow> error + VarVal option" where
  "variables_at state val =
     (case val of
        InstructionV p \<Rightarrow> map_at (variables state) (Ptr p)
      | ArgumentV p \<Rightarrow> map_at (variables state) (Ptr p)
      | _ \<Rightarrow> Inl OutOfRange)"

text \<open>\<^verbatim>\<open>interpretIntPredicate\<close>: an unknown predicate is logged, and \<open>false\<close> is bound.\<close>

definition interpretIntPredicate ::
  "nat \<Rightarrow> Predicate \<Rightarrow> Integer \<Rightarrow> Integer \<Rightarrow> FastState \<Rightarrow> error + FastState" where
  "interpretIntPredicate instr pred i0 i1 state =
     bind_result
       (case pred of
          ICMP_EQ \<Rightarrow> cmp_Integer (=) True i0 i1
        | ICMP_NE \<Rightarrow> cmp_Integer (\<noteq>) True i0 i1
        | ICMP_SGE \<Rightarrow> cmp_Integer (\<ge>) True i0 i1
        | ICMP_SGT \<Rightarrow> cmp_Integer (>) True i0 i1
        | ICMP_SLE \<Rightarrow> cmp_Integer (\<le>) True i0 i1
        | ICMP_SLT \<Rightarrow> cmp_Integer (<) True i0 i1
        | ICMP_UGE \<Rightarrow> cmp_Integer (\<ge>) False i0 i1
        | ICMP_UGT \<Rightarrow> cmp_Integer (>) False i0 i1
        | ICMP_ULE \<Rightarrow> cmp_Integer (\<le>) False i0 i1
        | ICMP_ULT \<Rightarrow> cmp_Integer (<) False i0 i1
        | OtherPredicate \<Rightarrow> Inr False)
       (\<lambda>predVal. Inr (set_variable (Ptr instr) (Some (VarBool predVal)) state))"

definition interpretICmpInst ::
  "bool \<Rightarrow> nat \<Rightarrow> Predicate \<Rightarrow> Value \<Rightarrow> Value \<Rightarrow> FastState \<Rightarrow> error + FastState" where
  "interpretICmpInst BoundedFlag instr pred v0 v1 state =
     bind_result (resolveValue BoundedFlag v0 state) (\<lambda>op0.
     bind_result (resolveValue BoundedFlag v1 state) (\<lambda>op1.
     bind_result (asInt op0) (\<lambda>i0.
     bind_result (asInt op1) (\<lambda>i1.
       interpretIntPredicate instr pred i0 i1 state))))"

text \<open>\<^verbatim>\<open>interpretBoolBinOp\<close>: \<open>result\<close> starts as \<open>false\<close>; only \<open>Or\<close> sets it; every other
  opcode is logged, and the \<open>false\<close> is bound.\<close>

definition interpretBoolBinOp ::
  "nat \<Rightarrow> BinaryOps \<Rightarrow> bool \<Rightarrow> bool \<Rightarrow> FastState \<Rightarrow> FastState" where
  "interpretBoolBinOp instr opc b0 b1 state =
     (let result = (case opc of Or \<Rightarrow> b0 \<or> b1 | _ \<Rightarrow> False)
      in set_variable (Ptr instr) (Some (VarBool result)) state)"

text \<open>The \<^verbatim>\<open>Integer\<close> a declaration without initialiser builds; Integer.h is not among
  the sources, and no claim rests on this value.\<close>

definition default_Integer :: Integer where
  "default_Integer = Unbounded 0"

definition interpretIntBinOp ::
  "nat \<Rightarrow> BinaryOps \<Rightarrow> Integer \<Rightarrow> Integer \<Rightarrow> FastState \<Rightarrow> error + FastState" where
  "interpretIntBinOp instr opc i0 i1 state =
     bind_result
       (case opc of
          Add \<Rightarrow> Integer_add i0 i1
        | Sub \<Rightarrow> Integer_sub i0 i1
        | Mul \<Rightarrow> Integer_mul i0 i1
        | SDiv \<Rightarrow> Integer_sdiv i0 i1
        | UDiv \<Rightarrow> Integer_udiv i0 i1
        | SRem \<Rightarrow> Integer_srem i0 i1
        | URem \<Rightarrow> Integer_urem i0 i1
        | Shl \<Rightarrow> Integer_shl i0 i1
        | LShr \<Rightarrow> Integer_lshr i0 i1
        | AShr \<Rightarrow> Integer_ashr i0 i1
        | And \<Rightarrow> Integer_and i0 i1
        | Or \<Rightarrow> Integer_or i0 i1
        | Xor \<Rightarrow> Integer_xor i0 i1
        | OtherBinaryOp \<Rightarrow> Inr default_Integer)
       (\<lambda>result. Inr (set_variable (Ptr instr) (Some (VarInt result)) state))"

definition interpretBinOp ::
  "bool \<Rightarrow> nat \<Rightarrow> BinaryOps \<Rightarrow> Type \<Rightarrow> Value \<Rightarrow> Value \<Rightarrow> FastState \<Rightarrow> error + FastState" where
  "interpretBinOp BoundedFlag instr opc ty v0 v1 state =
     bind_result (resolveValue BoundedFlag v0 state) (\<lambda>op0.
     bind_result (resolveValue BoundedFlag v1 state) (\<lambda>op1.
     bind_result (getIntegerBitWidth ty) (\<lambda>w.
       if w = 1 then
         bind_result (asBool op0) (\<lambda>b0.
         bind_result (asBool op1) (\<lambda>b1.
           Inr (interpretBoolBinOp instr opc b0 b1 state)))
       else
         bind_result (asInt op0) (\<lambda>i0.
         bind_result (asInt op1) (\<lambda>i1.
           interpretIntBinOp instr opc i0 i1 state)))))"

text \<open>Modelled from the spec: \<^verbatim>\<open>resolveGEP\<close> is not among the sources. Section 4.5: the
  address is the base plus the offsets the index operands select in the layout.\<close>

fun resolveGEP_indices ::
  "bool \<Rightarrow> FastState \<Rightarrow> Integer \<Rightarrow> (nat \<times> Value) list \<Rightarrow> error + Integer" where
  "resolveGEP_indices BoundedFlag state offset [] = Inr offset"
| "resolveGEP_indices BoundedFlag state offset ((sz, ix) # ixs) =
     bind_result (resolveValue BoundedFlag ix state) (\<lambda>p.
     bind_result (asInt p) (\<lambda>i.
     bind_result (Integer_mul (asPointer BoundedFlag (Unbounded (int sz)))
                    (asPointer BoundedFlag i)) (\<lambda>d.
     bind_result (Integer_add offset d) (\<lambda>offset'.
       resolveGEP_indices BoundedFlag state offset' ixs))))"

definition resolveGEP ::
  "bool \<Rightarrow> Value \<Rightarrow> (nat \<times> Value) list \<Rightarrow> FastState \<Rightarrow> error + Integer" where
  "resolveGEP BoundedFlag base ixs state =
     bind_result (resolveInt BoundedFlag base state)
       (\<lambda>offset. resolveGEP_indices BoundedFlag state offset ixs)"

text \<open>
  The bounded load of \<^verbatim>\<open>interpretInstruction\<close>: for \<open>i = 0, ..., bytes - 1\<close> the cell at
  \<open>ptr + i\<close> is inserted as an 8-bit zero unless it is there, and shifted into \<open>val\<close>
  from below, sign-extended to \<open>bytes * 8\<close> bits first.
\<close>

fun load_bytes ::
  "Integer \<Rightarrow> nat \<Rightarrow> Heap \<Rightarrow> APInt \<Rightarrow> nat list \<Rightarrow> error + Heap \<times> APInt" where
  "load_bytes ptr bytes h val [] = Inr (h, val)"
| "load_bytes ptr bytes h val (i # is) =
     bind_result (Integer_add (asPointer True ptr) (asPointer True (Unbounded (int i)))) (\<lambda>key.
       let h' = map_insert key (Bounded (makeBoundedInt 8 0)) h in
       bind_result (map_at h' key) (\<lambda>cell.
         case cell of
           Unbounded u \<Rightarrow> Inl AssertionFailed
         | Bounded b \<Rightarrow>
             if getBitWidth b \<noteq> 8 then Inl AssertionFailed
             else bind_result (ap_or (ap_shl val 8) (ap_sextOrSelf (bytes * 8) b))
                    (\<lambda>val'. load_bytes ptr bytes h' val' is)))"

text \<open>
  The bounded store of more than one byte: \<^verbatim>\<open>for (; bytes >= 0; --bytes)\<close> runs with
  \<open>bytes, bytes - 1, ..., 0\<close>; each round cuts the low byte off \<open>bval\<close> and writes it to
  \<open>addr + bytes\<close>.
\<close>

fun store_bytes :: "Integer \<Rightarrow> APInt \<Rightarrow> Heap \<Rightarrow> nat list \<Rightarrow> error + Heap" where
  "store_bytes addr bval h [] = Inr h"
| "store_bytes addr bval h (bytes # rest) =
     bind_result (ap_trunc 8 bval) (\<lambda>el.
     bind_result (Integer_add addr (Bounded (APInt 64 bytes))) (\<lambda>key.
       store_bytes addr (ap_ashr bval 8) (map_assign key (Bounded el) h) rest))"

text \<open>
  \<^verbatim>\<open>interpretInstruction\<close>. In the branch of \<^verbatim>\<open>IntToPtrInst\<close> the source assigns to
  \<^verbatim>\<open>state.variables[ptrToInt]\<close>: \<^verbatim>\<open>ptrToInt\<close> is the variable of the \<^verbatim>\<open>dyn_cast\<close> one
  branch earlier, which failed, so the key is the null pointer. A cast that is none
  of the four, and an instruction of no known kind, leave the state as it is (the
  second is logged).
\<close>

definition interpretCast ::
  "bool \<Rightarrow> nat \<Rightarrow> CastOps \<Rightarrow> Type \<Rightarrow> Type \<Rightarrow> Value \<Rightarrow> FastState \<Rightarrow> error + FastState" where
  "interpretCast BoundedFlag cast opc srcTy destTy operand state =
     bind_result
       (if isIntegerTy srcTy 1
        then bind_result (getIntegerBitWidth destTy) (\<lambda>w. Inr (w > 1))
        else Inr False) (\<lambda>fromBool.
     if fromBool then
       bind_result (variables_at state operand) (\<lambda>p.
       bind_result (asBool p) (\<lambda>b.
         if BoundedFlag then
           bind_result (getIntegerBitWidth destTy) (\<lambda>w.
             Inr (set_variable (Ptr cast)
                    (Some (VarInt (Bounded (makeBoundedInt w (if b then 1 else 0))))) state))
         else
           Inr (set_variable (Ptr cast)
                  (Some (VarInt (Unbounded (if b then 1 else 0)))) state)))
     else
       (case opc of
          ZExt \<Rightarrow>
            bind_result (resolveInt BoundedFlag operand state) (\<lambda>i.
            bind_result (getIntegerBitWidth destTy) (\<lambda>w.
            bind_result (Integer_zext w i) (\<lambda>r.
              Inr (set_variable (Ptr cast) (Some (VarInt r)) state))))
        | SExt \<Rightarrow>
            bind_result (resolveInt BoundedFlag operand state) (\<lambda>i.
            bind_result (getIntegerBitWidth destTy) (\<lambda>w.
            bind_result (Integer_sext w i) (\<lambda>r.
              Inr (set_variable (Ptr cast) (Some (VarInt r)) state))))
        | PtrToInt \<Rightarrow>
            bind_result (resolveInt BoundedFlag operand state) (\<lambda>i.
            bind_result (getIntegerBitWidth destTy) (\<lambda>w.
              Inr (set_variable (Ptr cast) (Some (VarInt (Integer_zextOrTrunc w i))) state)))
        | IntToPtr \<Rightarrow>
            bind_result (resolveInt BoundedFlag operand state) (\<lambda>i.
              Inr (set_variable nullptr (Some (VarInt (Integer_zextOrTrunc 64 i))) state))
        | OtherCast \<Rightarrow> Inr state))"

definition interpretLoad ::
  "bool \<Rightarrow> nat \<Rightarrow> Type \<Rightarrow> Value \<Rightarrow> FastState \<Rightarrow> error + FastState" where
  "interpretLoad BoundedFlag load ty pointerOperand state =
     bind_result (resolveValue BoundedFlag pointerOperand state) (\<lambda>p.
     bind_result (asInt p) (\<lambda>ptr.
       if BoundedFlag then
         bind_result (getIntegerBitWidth ty) (\<lambda>w.
           let bytes = w div 8 in
           bind_result (load_bytes ptr bytes (heap state) (makeBoundedInt w 0) [0..<bytes])
             (\<lambda>(h, val). Inr (set_variable (Ptr load) (Some (VarInt (Bounded val)))
                                 (set_heap h state))))
       else
         (let key = asPointer False ptr;
              h = map_insert key (Unbounded 0) (heap state)
          in bind_result (map_at h key) (\<lambda>cell.
               Inr (set_variable (Ptr load) (Some (VarInt cell)) (set_heap h state))))))"

definition interpretStore ::
  "bool \<Rightarrow> Type \<Rightarrow> Value \<Rightarrow> Value \<Rightarrow> FastState \<Rightarrow> error + FastState" where
  "interpretStore BoundedFlag valueTy valueOperand pointerOperand state =
     bind_result (resolveValue BoundedFlag pointerOperand state) (\<lambda>p.
     bind_result (asInt p) (\<lambda>addr.
     bind_result (resolveInt BoundedFlag valueOperand state) (\<lambda>val.
       if BoundedFlag then
         bind_result (getIntegerBitWidth valueTy) (\<lambda>w.
           let bytes = w div 8 in
           case val of
             Unbounded u \<Rightarrow> Inl AssertionFailed
           | Bounded bval \<Rightarrow>
               if bytes = 1 then Inr (set_heap (map_assign addr val (heap state)) state)
               else bind_result (store_bytes addr bval (heap state) (rev [0..<Suc bytes]))
                      (\<lambda>h. Inr (set_heap h state)))
       else Inr (set_heap (map_assign addr val (heap state)) state))))"

definition interpretSelect ::
  "bool \<Rightarrow> nat \<Rightarrow> Value \<Rightarrow> Value \<Rightarrow> Value \<Rightarrow> FastState \<Rightarrow> error + FastState" where
  "interpretSelect BoundedFlag select cond trueValue falseValue state =
     bind_result (resolveValue BoundedFlag cond state) (\<lambda>c.
     bind_result (asBool c) (\<lambda>condVal.
     bind_result (resolveValue BoundedFlag (if condVal then trueValue else falseValue) state)
       (\<lambda>var. Inr (set_variable (Ptr select) var state))))"

fun interpretInstruction :: "bool \<Rightarrow> Instruction \<Rightarrow> FastState \<Rightarrow> error + FastState" where
  "interpretInstruction BoundedFlag (BinaryOperator binOp opc ty v0 v1) state =
     interpretBinOp BoundedFlag binOp opc ty v0 v1 state"
| "interpretInstruction BoundedFlag (ICmpInst icmp pred v0 v1) state =
     interpretICmpInst BoundedFlag icmp pred v0 v1 state"
| "interpretInstruction BoundedFlag (CastInst cast opc srcTy destTy operand) state =
     interpretCast BoundedFlag cast opc srcTy destTy operand state"
| "interpretInstruction BoundedFlag (GetElementPtrInst gep base ixs) state =
     bind_result (resolveGEP BoundedFlag base ixs state)
       (\<lambda>r. Inr (set_variable (Ptr gep) (Some (VarInt r)) state))"
| "interpretInstruction BoundedFlag (LoadInst load ty pointerOperand) state =
     interpretLoad BoundedFlag load ty pointerOperand state"
| "interpretInstruction BoundedFlag (StoreInst store valueTy valueOperand pointerOperand) state =
     interpretStore BoundedFlag valueTy valueOperand pointerOperand state"
| "interpretInstruction BoundedFlag (SelectInst select cond trueValue falseValue) state =
     interpretSelect BoundedFlag select cond trueValue falseValue state"
| "interpretInstruction BoundedFlag (PHINode phi incoming) state = Inr state"
| "interpretInstruction BoundedFlag (CallInst call parent callee args) state = Inr state"
| "interpretInstruction BoundedFlag (OtherInstruction instr) state = Inr state"

section \<open>Traces\<close>

text \<open>
  \<^verbatim>\<open>Call<T>\<close> and \<^verbatim>\<open>BlockStep<T>\<close>, and \<^verbatim>\<open>BlockUpdate\<close>, the result of one block. The
  counters are \<^verbatim>\<open>uint32_t\<close>.
\<close>

datatype 'k Call =
  Call (functionName: string) (entryState: "'k State") (returnState: "'k State")
    (steps: "'k BlockStep list") (earlyExit: bool) (blocksVisited: "32 word")
and 'k BlockStep =
  BlockStep (blockName: string) (stepState: "'k State") (calls: "'k Call list")

type_synonym FastCall = "ValuePtr Call"

datatype BlockUpdate =
  BlockUpdate (upd_step: FastState) (upd_nextBlock: "nat option") (upd_calls: "FastCall list")
    (upd_earlyExit: bool) (upd_blocksVisited: "32 word")

section \<open>Blocks, calls and functions\<close>

text \<open>\<^verbatim>\<open>interpretPHI\<close>: the incoming value of the previous block, resolved and bound.\<close>

fun interpretPHI :: "bool \<Rightarrow> Instruction \<Rightarrow> FastState \<Rightarrow> nat option \<Rightarrow> error + FastState" where
  "interpretPHI BoundedFlag (PHINode instr incoming) state prevBlock =
     (case prevBlock of
        None \<Rightarrow> Inl AssertionFailed
      | Some b \<Rightarrow>
          (case map_of incoming b of
             None \<Rightarrow> Inl AssertionFailed
           | Some val \<Rightarrow>
               bind_result (resolveValue BoundedFlag val state)
                 (\<lambda>var. Inr (set_variable (Ptr instr) var state))))"
| "interpretPHI BoundedFlag instr state prevBlock = Inl AssertionFailed"

fun isPHI :: "Instruction \<Rightarrow> bool" where
  "isPHI (PHINode instr incoming) = True"
| "isPHI instr = False"

text \<open>The first loop of \<^verbatim>\<open>interpretBlock\<close>, over the instructions before
  \<^verbatim>\<open>getFirstNonPHI()\<close>.\<close>

fun interpretPHIs ::
  "bool \<Rightarrow> Instruction list \<Rightarrow> FastState \<Rightarrow> nat option \<Rightarrow> error + FastState" where
  "interpretPHIs BoundedFlag [] state prevBlock = Inr state"
| "interpretPHIs BoundedFlag (inst # rest) state prevBlock =
     bind_result (interpretPHI BoundedFlag inst state prevBlock)
       (\<lambda>state'. interpretPHIs BoundedFlag rest state' prevBlock)"

text \<open>The cases of a switch, in their order; \<open>==\<close> on \<^verbatim>\<open>Integer\<close> is modelled from the
  spec as the comparison \<open>eq\<close> of section 4.1.\<close>

fun switchCases ::
  "bool \<Rightarrow> Integer \<Rightarrow> (APInt \<times> nat) list \<Rightarrow> nat \<Rightarrow> error + nat" where
  "switchCases BoundedFlag condVal [] defaultDest = Inr defaultDest"
| "switchCases BoundedFlag condVal ((c, succ) # cases) defaultDest =
     bind_result
       (if BoundedFlag then Inr (Bounded c)
        else bind_result (getSExtValue c) (\<lambda>i. Inr (Unbounded i))) (\<lambda>caseVal.
     bind_result (cmp_Integer (=) True caseVal condVal) (\<lambda>eq.
       if eq then Inr succ else switchCases BoundedFlag condVal cases defaultDest))"

text \<open>\<^verbatim>\<open>interpretTerminator\<close>: the next block (none after a return) and the state. A
  terminator of another kind is logged and ends the function as a return does, with
  nothing bound.\<close>

fun interpretTerminator ::
  "bool \<Rightarrow> TerminatorInst \<Rightarrow> FastState \<Rightarrow> error + nat option \<times> FastState" where
  "interpretTerminator BoundedFlag (ReturnInst retVal) state =
     (case retVal of
        None \<Rightarrow> Inl AssertionFailed
      | Some v \<Rightarrow>
          bind_result (resolveValue BoundedFlag v state)
            (\<lambda>var. Inr (None, set_variable ReturnName var state)))"
| "interpretTerminator BoundedFlag (BranchInst dest) state = Inr (Some dest, state)"
| "interpretTerminator BoundedFlag (CondBranchInst cond succ0 succ1) state =
     bind_result (resolveValue BoundedFlag cond state) (\<lambda>c.
     bind_result (asBool c) (\<lambda>condVal.
       Inr (Some (if condVal then succ0 else succ1), state)))"
| "interpretTerminator BoundedFlag (SwitchInst cond cases defaultDest) state =
     bind_result (resolveValue BoundedFlag cond state) (\<lambda>c.
     bind_result (asInt c) (\<lambda>condVal.
     bind_result (switchCases BoundedFlag condVal cases defaultDest) (\<lambda>dest.
       Inr (Some dest, state))))"
| "interpretTerminator BoundedFlag OtherTerminator state = Inr (None, state)"

text \<open>The arguments of a call: the operands, resolved in the caller's state, are
  inserted under the parameters of \<open>fun\<close> in order.\<close>

fun bindArguments ::
  "bool \<Rightarrow> nat list \<Rightarrow> Value list \<Rightarrow> FastState \<Rightarrow> (ValuePtr, VarVal option) std_map
     \<Rightarrow> error + (ValuePtr, VarVal option) std_map" where
  "bindArguments BoundedFlag argIt [] state args = Inr args"
| "bindArguments BoundedFlag [] (arg # rest) state args = Inl OutOfBounds"
| "bindArguments BoundedFlag (param # argIt) (arg # rest) state args =
     bind_result (resolveValue BoundedFlag arg state)
       (\<lambda>v. bindArguments BoundedFlag argIt rest state (map_insert (Ptr param) v args))"

text \<open>\<^verbatim>\<open>m[k]\<close> read: a missing key is inserted with a null value.\<close>

definition map_subscript ::
  "('k, 'v option) std_map \<Rightarrow> 'k \<Rightarrow> ('k, 'v option) std_map \<times> 'v option" where
  "map_subscript m k = (case map_of m k of None \<Rightarrow> (m @ [(k, None)], None) | Some v \<Rightarrow> (m, v))"

text \<open>
  A run may not end: the budget check compares 32-bit counters that wrap around. The
  interpreter therefore takes fuel, one unit for each block a function enters;
  \<open>OutOfFuel\<close> says that the fuel did not suffice, \<open>Abort\<close> is a fatal condition and
  \<open>Done\<close> a result.
\<close>

datatype 'a run = OutOfFuel | Abort error | Done 'a

type_synonym Module = "(nat \<times> Function) list"

text \<open>\<^verbatim>\<open>dyn_cast<llvm::CallInst>\<close> succeeds.\<close>

fun isCall :: "Instruction \<Rightarrow> bool" where
  "isCall (CallInst call parent callee operands) = True"
| "isCall inst = False"

text \<open>
  The head of the call branch of \<^verbatim>\<open>interpretBlock\<close>: \<open>fun\<close> is \<^verbatim>\<open>call->getFunction()\<close>, and
  the state the interpreted function starts in binds the operands of the call to the
  parameters of \<open>fun\<close> and holds a copy of the heap.
\<close>

definition enterCall :: "bool \<Rightarrow> Module \<Rightarrow> Instruction \<Rightarrow> FastState \<Rightarrow> error + FastState" where
  "enterCall BoundedFlag M call state =
     (case map_of M (getFunction call) of
        None \<Rightarrow> Inl NullPointer
      | Some fun \<Rightarrow>
          bind_result (bindArguments BoundedFlag (getArgumentList fun) (arg_operands call) state [])
            (\<lambda>args. Inr (State args (heap state))))"

text \<open>
  The tail of the call branch once the budget check has passed: the heap of the
  returned state replaces the heap, and the call is bound to
  \<^verbatim>\<open>c.returnState.variables[ReturnName]\<close>. That subscript inserts a null binding into
  \<open>c\<close> when the sentinel is unbound, before \<open>c\<close> is pushed onto \<^verbatim>\<open>calls\<close>. The result is the
  state and the record pushed.
\<close>

definition afterCall :: "Instruction \<Rightarrow> FastCall \<Rightarrow> FastState \<Rightarrow> FastState \<times> FastCall" where
  "afterCall call c state =
     (let (vars, ret) = map_subscript (variables (returnState c)) ReturnName
      in (set_variable (Ptr (self call)) ret (set_heap (heap (returnState c)) state),
          Call (functionName c) (entryState c) (State vars (heap (returnState c))) (steps c)
            (earlyExit c) (blocksVisited c)))"

text \<open>The end of \<^verbatim>\<open>interpretBlock\<close>: the early return out of the instruction loop, or the
  terminator.\<close>

definition finishBlock ::
  "bool \<Rightarrow> BasicBlock \<Rightarrow> FastState \<Rightarrow> FastState \<times> FastCall list \<times> bool \<times> 32 word
     \<Rightarrow> error + BlockUpdate \<times> FastState" where
  "finishBlock BoundedFlag block step r =
     (case r of (state', nested, early, visited) \<Rightarrow>
        if early then Inr (BlockUpdate step None nested True visited, state')
        else bind_result (interpretTerminator BoundedFlag (getTerminator block) state')
               (\<lambda>(nextBlock, state''). Inr (BlockUpdate step nextBlock nested False visited, state'')))"

text \<open>The \<^verbatim>\<open>BlockStep\<close> that \<^verbatim>\<open>interpretFunction\<close> pushes for a block.\<close>

definition recordStep :: "BasicBlock \<Rightarrow> BlockUpdate \<Rightarrow> ValuePtr BlockStep" where
  "recordStep block update =
     BlockStep (blockGetName block) (upd_step update) (upd_calls update)"

text \<open>
  \<^verbatim>\<open>interpretFunction\<close> with its loop \<open>interpretFunction_loop\<close> (the \<^verbatim>\<open>do ... while\<close>),
  and \<^verbatim>\<open>interpretBlock\<close> with its second loop \<open>interpretBlock_instrs\<close> over the
  instructions between the PHIs and the terminator. At a call the source takes
  \<^verbatim>\<open>call->getFunction()\<close> as the function to interpret. The local variables
  \<^verbatim>\<open>steps\<close>, \<^verbatim>\<open>calls\<close> and \<^verbatim>\<open>blocksVisited\<close> are \<open>recorded\<close>, \<open>nested\<close> and \<open>visited\<close> here,
  next to the fields of those names.
\<close>

function (sequential) interpretFunction ::
    "nat \<Rightarrow> bool \<Rightarrow> Module \<Rightarrow> nat \<Rightarrow> FastState \<Rightarrow> 32 word \<Rightarrow> FastCall run"
  and interpretFunction_loop ::
    "nat \<Rightarrow> bool \<Rightarrow> Module \<Rightarrow> Function \<Rightarrow> FastState \<Rightarrow> 32 word \<Rightarrow> nat option \<Rightarrow> nat
       \<Rightarrow> ValuePtr BlockStep list \<Rightarrow> FastState \<Rightarrow> 32 word \<Rightarrow> FastCall run"
  and interpretBlock ::
    "nat \<Rightarrow> bool \<Rightarrow> Module \<Rightarrow> BasicBlock \<Rightarrow> nat option \<Rightarrow> FastState \<Rightarrow> 32 word
       \<Rightarrow> (BlockUpdate \<times> FastState) run"
  and interpretBlock_instrs ::
    "nat \<Rightarrow> bool \<Rightarrow> Module \<Rightarrow> Instruction list \<Rightarrow> FastState \<Rightarrow> 32 word \<Rightarrow> FastCall list
       \<Rightarrow> 32 word \<Rightarrow> (FastState \<times> FastCall list \<times> bool \<times> 32 word) run"
where
  "interpretFunction n BoundedFlag M f entry maxSteps =
     (case map_of M f of
        None \<Rightarrow> Abort NullPointer
      | Some fun \<Rightarrow>
          interpretFunction_loop n BoundedFlag M fun entry maxSteps None (getEntryBlock fun)
            [] entry 0)"
| "interpretFunction_loop 0 BoundedFlag M fun entry maxSteps prevBlock currentBlock
     recorded currentState visited = OutOfFuel"
| "interpretFunction_loop (Suc n) BoundedFlag M fun entry maxSteps prevBlock currentBlock
     recorded currentState visited =
     (case map_of (getBasicBlocks fun) currentBlock of
        None \<Rightarrow> Abort NullPointer
      | Some block \<Rightarrow>
          (case interpretBlock n BoundedFlag M block prevBlock currentState
                  (maxSteps - visited) of
             OutOfFuel \<Rightarrow> OutOfFuel
           | Abort e \<Rightarrow> Abort e
           | Done (update, state') \<Rightarrow>
               (if visited + upd_blocksVisited update > maxSteps \<or> upd_earlyExit update
                then Done (Call (funGetName fun) entry state'
                             (recorded @ [recordStep block update]) True
                             (visited + upd_blocksVisited update))
                else (case upd_nextBlock update of
                        None \<Rightarrow>
                          Done (Call (funGetName fun) entry state'
                                  (recorded @ [recordStep block update]) False
                                  (visited + upd_blocksVisited update))
                      | Some next \<Rightarrow>
                          interpretFunction_loop n BoundedFlag M fun entry maxSteps
                            (Some currentBlock) next (recorded @ [recordStep block update])
                            state' (visited + upd_blocksVisited update)))))"
| "interpretBlock n BoundedFlag M block prevBlock state maxSteps =
     (case interpretPHIs BoundedFlag (takeWhile isPHI (instructions block)) state prevBlock of
        Inl e \<Rightarrow> Abort e
      | Inr step \<Rightarrow>
          (case interpretBlock_instrs n BoundedFlag M (dropWhile isPHI (instructions block))
                  step maxSteps [] 1 of
             OutOfFuel \<Rightarrow> OutOfFuel
           | Abort e \<Rightarrow> Abort e
           | Done r \<Rightarrow>
               (case finishBlock BoundedFlag block step r of
                  Inl e \<Rightarrow> Abort e
                | Inr u \<Rightarrow> Done u)))"
| "interpretBlock_instrs n BoundedFlag M [] state maxSteps nested visited =
     Done (state, nested, False, visited)"
| "interpretBlock_instrs n BoundedFlag M (inst # rest) state maxSteps nested visited =
     (if isCall inst then
        (case enterCall BoundedFlag M inst state of
           Inl e \<Rightarrow> Abort e
         | Inr callState \<Rightarrow>
             (case interpretFunction n BoundedFlag M (getFunction inst) callState
                     (maxSteps - visited) of
                OutOfFuel \<Rightarrow> OutOfFuel
              | Abort e \<Rightarrow> Abort e
              | Done c \<Rightarrow>
                  if visited + blocksVisited c > maxSteps \<or> earlyExit c
                  then Done (state, nested, True, visited + blocksVisited c)
                  else interpretBlock_instrs n BoundedFlag M rest
                         (fst (afterCall inst c state)) maxSteps
                         (nested @ [snd (afterCall inst c state)])
                         (visited + blocksVisited c)))
      else
        (case interpretInstruction BoundedFlag inst state of
           Inl e \<Rightarrow> Abort e
         | Inr state' \<Rightarrow>
             interpretBlock_instrs n BoundedFlag M rest state' maxSteps nested visited))"

  by pat_completeness auto
termination
  by (relation "inv_image (less_than <*lex*> less_than)
        (\<lambda>x. case x of
           Inl (Inl (n, r)) \<Rightarrow> (n, 1)
         | Inl (Inr (n, r)) \<Rightarrow> (n, 0)
         | Inr (Inl (n, b, M, block, r)) \<Rightarrow> (n, 3 + length (instructions block))
         | Inr (Inr (n, b, M, is, r)) \<Rightarrow> (n, 2 + length is))")
    (auto simp: le_imp_less_Suc length_dropWhile_le)

text \<open>Shorthands for the statements about bounded loads: the key of the cell \<open>i\<close> bytes
  after the 64-bit address \<open>p\<close>, and the 8-bit zero.\<close>

abbreviation (input) cell :: "nat \<Rightarrow> nat \<Rightarrow> Integer" where
  "cell p i \<equiv> Bounded (APInt 64 ((p + i) mod 2 ^ 64))"

abbreviation (input) zero8 :: Integer where
  "zero8 \<equiv> Bounded (APInt 8 0)"

section \<open>The wire format\<close>

text \<open>
  The items of libcbor that the codec builds and reads: unsigned 32-bit integers,
  booleans, strings (definite or not), arrays and maps; \<open>CborOther\<close> is any other item.
\<close>

datatype cbor_item =
    CborUInt32 "32 word"
  | CborBool bool
  | CborString bool string
  | CborArray "cbor_item list"
  | CborMap "(cbor_item \<times> cbor_item) list"
  | CborOther

text \<open>\<^verbatim>\<open>cbor_build_string(s.c_str())\<close>: a definite string of the characters before the
  first NUL.\<close>

definition c_str :: "string \<Rightarrow> string" where
  "c_str s = takeWhile (\<lambda>c. c \<noteq> CHR 0x00) s"

definition cbor_build_string :: "string \<Rightarrow> cbor_item" where
  "cbor_build_string s = CborString True (c_str s)"

text \<open>
  Decimal text. \<^verbatim>\<open>mpz_class::get_str()\<close> prints a minus sign and the digits;
  \<^verbatim>\<open>mpz_class(s, 10)\<close> reads as GMP's \<^verbatim>\<open>mpz_set_str\<close> does (leading white space, an
  optional minus sign, a digit, then digits and white space up to the end or the first
  NUL) and throws \<^verbatim>\<open>std::invalid_argument\<close> on anything else.
\<close>

definition digit_char :: "nat \<Rightarrow> char" where
  "digit_char d = char_of (48 + d)"

fun digits :: "nat \<Rightarrow> string" where
  "digits n = (if n < 10 then [digit_char n] else digits (n div 10) @ [digit_char (n mod 10)])"

declare digits.simps [simp del]

definition mpz_get_str :: "int \<Rightarrow> string" where
  "mpz_get_str i = (if i < 0 then CHR ''-'' # digits (nat (- i)) else digits (nat i))"

definition digit_value :: "char \<Rightarrow> nat option" where
  "digit_value c =
     (if (48::nat) \<le> of_char c \<and> of_char c \<le> (57::nat) then Some (of_char c - 48) else None)"

definition isspace :: "char \<Rightarrow> bool" where
  "isspace c = (c \<in> set [CHR '' '', CHR 0x09, CHR 0x0A, CHR 0x0B, CHR 0x0C, CHR 0x0D])"

fun read_digits :: "nat \<Rightarrow> string \<Rightarrow> nat option" where
  "read_digits acc [] = Some acc"
| "read_digits acc (c # cs) =
     (if isspace c then read_digits acc cs
      else case digit_value c of
             None \<Rightarrow> None
           | Some d \<Rightarrow> read_digits (10 * acc + d) cs)"

definition mpz_set_str :: "string \<Rightarrow> int option" where
  "mpz_set_str s =
     (case dropWhile isspace (c_str s) of
        [] \<Rightarrow> None
      | c # cs \<Rightarrow>
          if c = CHR ''-''
          then (case cs of
                  [] \<Rightarrow> None
                | d # ds \<Rightarrow> if digit_value d = None then None
                            else map_option (\<lambda>n. - int n) (read_digits 0 cs))
          else if digit_value c = None then None
          else map_option int (read_digits 0 (c # cs)))"


text \<open>Modelled from the spec: \<^verbatim>\<open>Integer::get_str\<close> of Integer.h. Section 6: an integer is
  written as decimal text in both modes; a bounded value is read as signed.\<close>

definition Integer_get_str :: "Integer \<Rightarrow> string" where
  "Integer_get_str x =
     (case x of Bounded a \<Rightarrow> mpz_get_str (signedValue a) | Unbounded i \<Rightarrow> mpz_get_str i)"

text \<open>\<^verbatim>\<open>VarInt::toCBOR\<close> and \<^verbatim>\<open>VarBool::toCBOR\<close>.\<close>

fun VarVal_toCBOR :: "VarVal \<Rightarrow> cbor_item" where
  "VarVal_toCBOR (VarInt val) = cbor_build_string (Integer_get_str val)"
| "VarVal_toCBOR (VarBool val) = CborBool val"

text \<open>The name under which a key is written: \<^verbatim>\<open>"return"\<close> for the null key, else
  \<^verbatim>\<open>getName()\<close> of the value, which the encoders take as the function \<open>getName\<close> from
  addresses to names.\<close>

definition valueName :: "(nat \<Rightarrow> string) \<Rightarrow> ValuePtr \<Rightarrow> string" where
  "valueName getName val = (case val of nullptr \<Rightarrow> ''return'' | Ptr a \<Rightarrow> getName a)"

text \<open>\<^verbatim>\<open>stateToCBOR\<close>; \<^verbatim>\<open>var.second->toCBOR()\<close> needs a binding that is not null.\<close>

fun variablesToCBOR ::
  "(nat \<Rightarrow> string) \<Rightarrow> (ValuePtr, VarVal option) std_map \<Rightarrow> error + (cbor_item \<times> cbor_item) list" where
  "variablesToCBOR getName [] = Inr []"
| "variablesToCBOR getName ((k, v) # vars) =
     (case v of
        None \<Rightarrow> Inl NullPointer
      | Some val \<Rightarrow>
          (case variablesToCBOR getName vars of
             Inl e \<Rightarrow> Inl e
           | Inr rest \<Rightarrow>
               Inr ((cbor_build_string (valueName getName k), VarVal_toCBOR val) # rest)))"

definition heapToCBOR :: "Heap \<Rightarrow> (cbor_item \<times> cbor_item) list" where
  "heapToCBOR h =
     map (\<lambda>(k, v). (cbor_build_string (Integer_get_str k), cbor_build_string (Integer_get_str v))) h"

definition stateToCBOR :: "(nat \<Rightarrow> string) \<Rightarrow> FastState \<Rightarrow> error + cbor_item" where
  "stateToCBOR getName state =
     bind_result (variablesToCBOR getName (variables state)) (\<lambda>cborVariables.
       Inr (CborMap [(cbor_build_string ''variables'', CborMap cborVariables),
                     (cbor_build_string ''heap'', CborMap (heapToCBOR (heap state)))]))"

text \<open>\<^verbatim>\<open>FastCall::toCBOR\<close> and \<^verbatim>\<open>BlockStep<const llvm::Value *>::toCBOR\<close>, with their loops
  over \<^verbatim>\<open>steps\<close> and \<^verbatim>\<open>calls\<close>.\<close>

fun Call_toCBOR :: "(nat \<Rightarrow> string) \<Rightarrow> FastCall \<Rightarrow> error + cbor_item"
  and BlockStep_toCBOR :: "(nat \<Rightarrow> string) \<Rightarrow> ValuePtr BlockStep \<Rightarrow> error + cbor_item"
  and steps_toCBOR :: "(nat \<Rightarrow> string) \<Rightarrow> ValuePtr BlockStep list \<Rightarrow> error + cbor_item list"
  and calls_toCBOR :: "(nat \<Rightarrow> string) \<Rightarrow> FastCall list \<Rightarrow> error + cbor_item list"
where
  "Call_toCBOR getName (Call name entry ret ss early visited) =
     (case stateToCBOR getName entry of
        Inl e \<Rightarrow> Inl e
      | Inr cborEntry \<Rightarrow>
          (case stateToCBOR getName ret of
             Inl e \<Rightarrow> Inl e
           | Inr cborReturn \<Rightarrow>
               (case steps_toCBOR getName ss of
                  Inl e \<Rightarrow> Inl e
                | Inr cborSteps \<Rightarrow>
                    Inr (CborMap
                      [(cbor_build_string ''function_name'', cbor_build_string name),
                       (cbor_build_string ''entry_state'', cborEntry),
                       (cbor_build_string ''return_state'', cborReturn),
                       (cbor_build_string ''steps'', CborArray cborSteps),
                       (cbor_build_string ''early_exit'', CborBool early),
                       (cbor_build_string ''blocks_visited'', CborUInt32 visited)]))))"
| "BlockStep_toCBOR getName (BlockStep name st cs) =
     (case stateToCBOR getName st of
        Inl e \<Rightarrow> Inl e
      | Inr cborState \<Rightarrow>
          (case calls_toCBOR getName cs of
             Inl e \<Rightarrow> Inl e
           | Inr cborCalls \<Rightarrow>
               Inr (CborMap
                 [(cbor_build_string ''block_name'', cbor_build_string name),
                  (cbor_build_string ''state'', cborState),
                  (cbor_build_string ''calls'', CborArray cborCalls)])))"
| "steps_toCBOR getName [] = Inr []"
| "steps_toCBOR getName (s # ss) =
     (case BlockStep_toCBOR getName s of
        Inl e \<Rightarrow> Inl e
      | Inr x \<Rightarrow> (case steps_toCBOR getName ss of Inl e \<Rightarrow> Inl e | Inr xs \<Rightarrow> Inr (x # xs)))"
| "calls_toCBOR getName [] = Inr []"
| "calls_toCBOR getName (c # cs) =
     (case Call_toCBOR getName c of
        Inl e \<Rightarrow> Inl e
      | Inr x \<Rightarrow> (case calls_toCBOR getName cs of Inl e \<Rightarrow> Inl e | Inr xs \<Rightarrow> Inr (x # xs)))"


text \<open>\<^verbatim>\<open>cborToString\<close>, \<^verbatim>\<open>cborToMap\<close> with its loop, and \<^verbatim>\<open>cborToKeyMap\<close>.\<close>

fun cborToString :: "cbor_item \<Rightarrow> error + string" where
  "cborToString (CborString True s) = Inr s"
| "cborToString item = Inl AssertionFailed"

fun cborToMap_loop ::
  "(cbor_item \<Rightarrow> error + 'k) \<Rightarrow> (cbor_item \<Rightarrow> error + 'v) \<Rightarrow> (cbor_item \<times> cbor_item) list
     \<Rightarrow> ('k, 'v) std_map \<Rightarrow> error + ('k, 'v) std_map" where
  "cborToMap_loop keyFun valFun [] m = Inr m"
| "cborToMap_loop keyFun valFun ((k, v) # handle) m =
     bind_result (keyFun k) (\<lambda>key.
     bind_result (valFun v) (\<lambda>val.
       cborToMap_loop keyFun valFun handle (map_insert key val m)))"

fun cborToMap ::
  "(cbor_item \<Rightarrow> error + 'k) \<Rightarrow> (cbor_item \<Rightarrow> error + 'v) \<Rightarrow> cbor_item
     \<Rightarrow> error + ('k, 'v) std_map" where
  "cborToMap keyFun valFun (CborMap handle) = cborToMap_loop keyFun valFun handle []"
| "cborToMap keyFun valFun item = Inl AssertionFailed"

definition cborToKeyMap :: "cbor_item \<Rightarrow> error + (string, cbor_item) std_map" where
  "cborToKeyMap item = cborToMap cborToString Inr item"

text \<open>\<^verbatim>\<open>cborToVarVal\<close>; \<^verbatim>\<open>Integer(mpz_class(s, 10))\<close> is the unbounded integer read from \<open>s\<close>.\<close>

definition Integer_of_string :: "string \<Rightarrow> error + Integer" where
  "Integer_of_string s =
     (case mpz_set_str s of None \<Rightarrow> Inl InvalidArgument | Some i \<Rightarrow> Inr (Unbounded i))"

fun cborToVarVal :: "cbor_item \<Rightarrow> error + VarVal option" where
  "cborToVarVal (CborBool b) = Inr (Some (VarBool b))"
| "cborToVarVal (CborString True s) =
     bind_result (Integer_of_string s) (\<lambda>i. Inr (Some (VarInt i)))"
| "cborToVarVal item = Inr None"

definition cborToVarIntVal :: "cbor_item \<Rightarrow> error + Integer" where
  "cborToVarIntVal item = bind_result (cborToString item) Integer_of_string"

text \<open>\<^verbatim>\<open>cborToState\<close> reads the two entries of the map by position.\<close>

fun cborToState :: "cbor_item \<Rightarrow> error + string State" where
  "cborToState (CborMap [(k0, cborVariables), (k1, cborHeap)]) =
     bind_result (cborToMap cborToString cborToVarVal cborVariables) (\<lambda>variables.
     bind_result (cborToMap (\<lambda>item. bind_result (cborToString item) Integer_of_string)
                    cborToVarIntVal cborHeap) (\<lambda>heap.
       Inr (State variables heap)))"
| "cborToState item = Inl AssertionFailed"

text \<open>\<^verbatim>\<open>cbor_ctrl_is_bool\<close> (libcbor 0.4) reads the value of a boolean, and
  \<^verbatim>\<open>cbor_get_uint32\<close> that of a 32-bit unsigned integer.\<close>

fun cbor_ctrl_is_bool :: "cbor_item \<Rightarrow> error + bool" where
  "cbor_ctrl_is_bool (CborBool b) = Inr b"
| "cbor_ctrl_is_bool item = Inl AssertionFailed"

fun cbor_get_uint32 :: "cbor_item \<Rightarrow> error + 32 word" where
  "cbor_get_uint32 (CborUInt32 n) = Inr n"
| "cbor_get_uint32 item = Inl AssertionFailed"

text \<open>The array under a key of a key map, for \<^verbatim>\<open>cborToVector(vals.at(key), ...)\<close>.\<close>

definition array_at :: "(string, cbor_item) std_map \<Rightarrow> string \<Rightarrow> error + cbor_item list" where
  "array_at vals key =
     bind_result (map_at vals key)
       (\<lambda>item. case item of CborArray xs \<Rightarrow> Inr xs | _ \<Rightarrow> Inl AssertionFailed)"

lemma cborToMap_loop_values:
  "cborToMap_loop cborToString Inr handle m = Inr vals \<Longrightarrow> (k, x) \<in> set vals \<Longrightarrow>
   (k, x) \<in> set m \<or> x \<in> snd ` set handle"
proof (induction "handle" arbitrary: m)
  case Nil
  then show ?case by simp
next
  case (Cons p "handle")
  obtain a b where p: "p = (a, b)" by (cases p)
  from Cons.prems(1) obtain key where key: "cborToString a = Inr key"
    and loop: "cborToMap_loop cborToString Inr handle (map_insert key b m) = Inr vals"
    by (auto simp: p bind_result_def split: sum.splits)
  from Cons.IH [OF loop Cons.prems(2)]
  show ?case
    by (auto simp: p map_insert_def split: option.splits)
qed

lemma array_at_size:
  assumes "cborToKeyMap (CborMap handle) = Inr vals" "array_at vals key = Inr xs"
  shows "size_list size xs < Suc (size_list (size_prod size size) handle)"
proof -
  from assms(2) have "(key, CborArray xs) \<in> set vals"
    by (auto simp: array_at_def map_at_def bind_result_def dest: map_of_SomeD
        split: option.splits cbor_item.splits)
  with assms(1) have "CborArray xs \<in> snd ` set handle"
    using cborToMap_loop_values [of "handle" "[]" vals key "CborArray xs"]
    by (simp add: cborToKeyMap_def)
  then obtain k where "(k, CborArray xs) \<in> set handle" by auto
  then have "size_prod size size (k, CborArray xs) \<le> size_list (size_prod size size) handle"
    by (simp add: size_list_estimation')
  then show ?thesis by simp
qed

text \<open>\<^verbatim>\<open>cborToCall\<close> and \<^verbatim>\<open>cborToBlockStep\<close>, each with \<^verbatim>\<open>cborToVector\<close> over the other.\<close>

function (sequential) cborToCall :: "cbor_item \<Rightarrow> error + string Call"
  and cborToBlockStep :: "cbor_item \<Rightarrow> error + string BlockStep"
  and cborToVector_BlockStep :: "cbor_item list \<Rightarrow> error + string BlockStep list"
  and cborToVector_Call :: "cbor_item list \<Rightarrow> error + string Call list"
where
  "cborToCall (CborMap handle) =
     (if length handle \<noteq> 6 then Inl AssertionFailed
      else
        (case cborToKeyMap (CborMap handle) of
           Inl e \<Rightarrow> Inl e
         | Inr vals \<Rightarrow>
             (case bind_result (map_at vals ''function_name'') cborToString of
                Inl e \<Rightarrow> Inl e
              | Inr name \<Rightarrow>
                  (case bind_result (map_at vals ''entry_state'') cborToState of
                     Inl e \<Rightarrow> Inl e
                   | Inr entry \<Rightarrow>
                       (case bind_result (map_at vals ''return_state'') cborToState of
                          Inl e \<Rightarrow> Inl e
                        | Inr ret \<Rightarrow>
                            (case array_at vals ''steps'' of
                               Inl e \<Rightarrow> Inl e
                             | Inr xs \<Rightarrow>
                                 (case cborToVector_BlockStep xs of
                                    Inl e \<Rightarrow> Inl e
                                  | Inr ss \<Rightarrow>
                                      bind_result
                                        (bind_result (map_at vals ''early_exit'')
                                           cbor_ctrl_is_bool) (\<lambda>early.
                                      bind_result
                                        (bind_result (map_at vals ''blocks_visited'')
                                           cbor_get_uint32) (\<lambda>visited.
                                        Inr (Call name entry ret ss early visited))))))))))"
| "cborToCall item = Inl AssertionFailed"
| "cborToBlockStep (CborMap handle) =
     (if length handle \<noteq> 3 then Inl AssertionFailed
      else
        (case cborToKeyMap (CborMap handle) of
           Inl e \<Rightarrow> Inl e
         | Inr vals \<Rightarrow>
             (case bind_result (map_at vals ''block_name'') cborToString of
                Inl e \<Rightarrow> Inl e
              | Inr name \<Rightarrow>
                  (case bind_result (map_at vals ''state'') cborToState of
                     Inl e \<Rightarrow> Inl e
                   | Inr st \<Rightarrow>
                       (case array_at vals ''calls'' of
                          Inl e \<Rightarrow> Inl e
                        | Inr xs \<Rightarrow>
                            (case cborToVector_Call xs of
                               Inl e \<Rightarrow> Inl e
                             | Inr cs \<Rightarrow> Inr (BlockStep name st cs)))))))"
| "cborToBlockStep item = Inl AssertionFailed"
| "cborToVector_BlockStep [] = Inr []"
| "cborToVector_BlockStep (x # xs) =
     (case cborToBlockStep x of
        Inl e \<Rightarrow> Inl e
      | Inr s \<Rightarrow> (case cborToVector_BlockStep xs of Inl e \<Rightarrow> Inl e | Inr ss \<Rightarrow> Inr (s # ss)))"
| "cborToVector_Call [] = Inr []"
| "cborToVector_Call (x # xs) =
     (case cborToCall x of
        Inl e \<Rightarrow> Inl e
      | Inr c \<Rightarrow> (case cborToVector_Call xs of Inl e \<Rightarrow> Inl e | Inr cs \<Rightarrow> Inr (c # cs)))"
  by pat_completeness auto
termination
  by (relation "measure (\<lambda>x. case x of
           Inl (Inl item) \<Rightarrow> 2 * size item
         | Inl (Inr item) \<Rightarrow> 2 * size item
         | Inr (Inl xs) \<Rightarrow> 2 * size_list size xs + 1
         | Inr (Inr xs) \<Rightarrow> 2 * size_list size xs + 1)")
    (auto dest: array_at_size)

text \<open>\<^verbatim>\<open>varValEq\<close>; \<open>==\<close> on \<^verbatim>\<open>Integer\<close> is modelled from the spec as the comparison \<open>eq\<close>.\<close>

definition varValEq :: "VarVal \<Rightarrow> VarVal \<Rightarrow> error + bool" where
  "varValEq lhs rhs =
     (if getType lhs \<noteq> getType rhs then Inr False
      else case (lhs, rhs) of
             (VarBool a, VarBool b) \<Rightarrow> Inr (a = b)
           | (VarInt a, VarInt b) \<Rightarrow> cmp_Integer (=) True a b
           | _ \<Rightarrow> Inr False)"

text \<open>
  What decoding can give back of a trace: the trace with every key replaced by its
  name. \<open>wire_call\<close> holds of the traces for which it does: in every state the
  bindings are not null, the integers are unbounded, the keys of each map are
  distinct, the names of the bound values are distinct, and no name holds a NUL.
\<close>

definition rename_state :: "('k \<Rightarrow> 'n) \<Rightarrow> 'k State \<Rightarrow> 'n State" where
  "rename_state name st = State (map (\<lambda>(k, v). (name k, v)) (variables st)) (heap st)"

primrec rename_call :: "('k \<Rightarrow> 'n) \<Rightarrow> 'k Call \<Rightarrow> 'n Call"
  and rename_step :: "('k \<Rightarrow> 'n) \<Rightarrow> 'k BlockStep \<Rightarrow> 'n BlockStep" where
  "rename_call name (Call f entry ret ss early visited) =
     Call f (rename_state name entry) (rename_state name ret) (map (rename_step name) ss)
       early visited"
| "rename_step name (BlockStep b st cs) =
     BlockStep b (rename_state name st) (map (rename_call name) cs)"

fun isUnbounded :: "Integer \<Rightarrow> bool" where
  "isUnbounded (Unbounded i) = True"
| "isUnbounded (Bounded a) = False"

fun wire_value :: "VarVal option \<Rightarrow> bool" where
  "wire_value None = False"
| "wire_value (Some (VarInt i)) = isUnbounded i"
| "wire_value (Some (VarBool b)) = True"

definition wire_state :: "(nat \<Rightarrow> string) \<Rightarrow> FastState \<Rightarrow> bool" where
  "wire_state getName st =
     (distinct (map (\<lambda>(k, v). valueName getName k) (variables st))
      \<and> list_all (\<lambda>(k, v). c_str (valueName getName k) = valueName getName k \<and> wire_value v)
          (variables st)
      \<and> distinct (map fst (heap st))
      \<and> list_all (\<lambda>(k, v). isUnbounded k \<and> isUnbounded v) (heap st))"

fun wire_call :: "(nat \<Rightarrow> string) \<Rightarrow> FastCall \<Rightarrow> bool"
  and wire_step :: "(nat \<Rightarrow> string) \<Rightarrow> ValuePtr BlockStep \<Rightarrow> bool" where
  "wire_call getName (Call f entry ret ss early visited) =
     (c_str f = f \<and> wire_state getName entry \<and> wire_state getName ret
      \<and> list_all (wire_step getName) ss)"
| "wire_step getName (BlockStep b st cs) =
     (c_str b = b \<and> wire_state getName st \<and> list_all (wire_call getName) cs)"

section \<open>Example programs\<close>

text \<open>
  Inputs for the concrete runs below. \<open>f_blocks callee\<close> is the body of
  \<^verbatim>\<open>f(a) { entry: %2 = icmp eq a, 0; br %2, done, rec   rec: %3 = call callee(0); br done
   done: ret a }\<close>;
  \<open>f\<close> has the address 10 and \<open>g\<close>, which returns 42, the address 20. In
  \<open>module_f_calls_g\<close> the call in \<open>f\<close> calls \<open>g\<close>, in \<open>module_f_recursive\<close> it calls \<open>f\<close>
  itself; in both it stands in \<open>f\<close>.
\<close>

definition f_blocks :: "nat \<Rightarrow> (nat \<times> BasicBlock) list" where
  "f_blocks callee =
    [(100, BasicBlock ''entry''
             [ICmpInst 2 ICMP_EQ (ArgumentV 1) (ConstantInt (APInt 32 0))]
             (CondBranchInst (InstructionV 2) 102 101)),
     (101, BasicBlock ''rec'' [CallInst 3 10 callee [ConstantInt (APInt 32 0)]]
             (BranchInst 102)),
     (102, BasicBlock ''done'' [] (ReturnInst (Some (ArgumentV 1))))]"

definition module_f_calls_g :: Module where
  "module_f_calls_g =
     [(10, Function ''f'' [1] 100 (f_blocks 20)),
      (20, Function ''g'' [5] 200
             [(200, BasicBlock ''entry'' [] (ReturnInst (Some (ConstantInt (APInt 32 42)))))])]"

definition module_f_recursive :: Module where
  "module_f_recursive = [(10, Function ''f'' [1] 100 (f_blocks 10))]"

text \<open>The entry state \<open>a = 1\<close>.\<close>

definition entry_a1 :: FastState where
  "entry_a1 = State [(Ptr 1, Some (VarInt (Unbounded 1)))] []"

text \<open>
  A function whose second block starts with two PHIs:
  \<^verbatim>\<open>entry: br join\<close>;
  \<^verbatim>\<open>join: %5 = phi [%1, entry]; %6 = phi [7, entry]; %7 = add %5, %6; ret %7\<close>,
  and the call record of its run on \<open>a = 1\<close>.
\<close>

definition phi_join :: BasicBlock where
  "phi_join =
     BasicBlock ''join''
       [PHINode 5 [(100, ArgumentV 1)],
        PHINode 6 [(100, ConstantInt (APInt 32 7))],
        BinaryOperator 7 Add (IntegerTy 32) (InstructionV 5) (InstructionV 6)]
       (ReturnInst (Some (InstructionV 7)))"

definition phi_function :: Function where
  "phi_function =
     Function ''h'' [1] 100
       [(100, BasicBlock ''entry'' [] (BranchInst 200)), (200, phi_join)]"

definition phi_call :: FastCall where
  "phi_call =
     Call ''h'' (State [(Ptr 1, Some (VarInt (Unbounded 1)))] [])
       (State [(Ptr 1, Some (VarInt (Unbounded 1))), (Ptr 5, Some (VarInt (Unbounded 1))),
               (Ptr 6, Some (VarInt (Unbounded 7))), (Ptr 7, Some (VarInt (Unbounded 8))),
               (ReturnName, Some (VarInt (Unbounded 8)))] [])
       [BlockStep ''entry'' (State [(Ptr 1, Some (VarInt (Unbounded 1)))] []) [],
        BlockStep ''join''
          (State [(Ptr 1, Some (VarInt (Unbounded 1))), (Ptr 5, Some (VarInt (Unbounded 1))),
                  (Ptr 6, Some (VarInt (Unbounded 7)))] []) []]
       False 2"

text \<open>
  The number of block visits that the steps of a trace account for: one for each
  recorded step, and the count of each call recorded in it.
\<close>

definition callVisits :: "'k Call list \<Rightarrow> nat" where
  "callVisits cs = sum_list (map (\<lambda>c. unat (blocksVisited c)) cs)"

definition stepVisits :: "'k BlockStep \<Rightarrow> nat" where
  "stepVisits s = 1 + callVisits (calls s)"

definition recordedVisits :: "'k BlockStep list \<Rightarrow> nat" where
  "recordedVisits ss = sum_list (map stepVisits ss)"

text \<open>No call record at any depth reports \<open>2 ^ 32 - 1\<close> visits, the largest value of the
  counter.\<close>

fun noWrap :: "'k Call \<Rightarrow> bool" and noWrapStep :: "'k BlockStep \<Rightarrow> bool" where
  "noWrap (Call f entry ret ss early visited) = (visited \<noteq> - 1 \<and> list_all noWrapStep ss)"
| "noWrapStep (BlockStep b st cs) = list_all noWrap cs"

text \<open>
  The records of the runs of \<open>module_f_recursive\<close> on \<open>a = 1\<close>: with a budget of 5 or more
  (the whole call tree, five visits), with a budget of 1 to 4 (cut in the block \<open>rec\<close>,
  the count depending on the budget), and with the budget 0.
\<close>

definition complete_call :: FastCall where
  "complete_call =
     Call ''f'' (State [(Ptr 1, Some (VarInt (Unbounded 1)))] [])
       (State [(Ptr 1, Some (VarInt (Unbounded 1))), (Ptr 2, Some (VarBool False)),
               (Ptr 3, Some (VarInt (Unbounded 0))),
               (ReturnName, Some (VarInt (Unbounded 1)))] [])
       [BlockStep ''entry'' (State [(Ptr 1, Some (VarInt (Unbounded 1)))] []) [],
        BlockStep ''rec''
          (State [(Ptr 1, Some (VarInt (Unbounded 1))), (Ptr 2, Some (VarBool False))] [])
          [Call ''f'' (State [(Ptr 1, Some (VarInt (Unbounded 0)))] [])
             (State [(Ptr 1, Some (VarInt (Unbounded 0))), (Ptr 2, Some (VarBool True)),
                     (ReturnName, Some (VarInt (Unbounded 0)))] [])
             [BlockStep ''entry'' (State [(Ptr 1, Some (VarInt (Unbounded 0)))] []) [],
              BlockStep ''done''
                (State [(Ptr 1, Some (VarInt (Unbounded 0))), (Ptr 2, Some (VarBool True))] [])
                []]
             False 2],
        BlockStep ''done''
          (State [(Ptr 1, Some (VarInt (Unbounded 1))), (Ptr 2, Some (VarBool False)),
                  (Ptr 3, Some (VarInt (Unbounded 0)))] []) []]
       False 5"

definition truncated_call :: "32 word \<Rightarrow> FastCall" where
  "truncated_call visited =
     Call ''f'' (State [(Ptr 1, Some (VarInt (Unbounded 1)))] [])
       (State [(Ptr 1, Some (VarInt (Unbounded 1))), (Ptr 2, Some (VarBool False))] [])
       [BlockStep ''entry'' (State [(Ptr 1, Some (VarInt (Unbounded 1)))] []) [],
        BlockStep ''rec''
          (State [(Ptr 1, Some (VarInt (Unbounded 1))), (Ptr 2, Some (VarBool False))] []) []]
       True visited"

definition zero_budget_call :: FastCall where
  "zero_budget_call =
     Call ''f'' (State [(Ptr 1, Some (VarInt (Unbounded 1)))] [])
       (State [(Ptr 1, Some (VarInt (Unbounded 1))), (Ptr 2, Some (VarBool False))] [])
       [BlockStep ''entry'' (State [(Ptr 1, Some (VarInt (Unbounded 1)))] []) []]
       True 1"

section \<open>Evaluation\<close>

lemma bind_result_simps:
  "bind_result (Inl e) f = Inl e" "bind_result (Inr x) f = f x"
  by (simp_all add: bind_result_def)

lemmas eval_defs =
  interpretStore_def interpretLoad_def interpretCast_def resolveValue_def resolveInt_def
  map_at_def map_insert_def bind_result_simps asInt_def asBool_def deref_def
  ap_trunc_def ap_ashr_def ap_shl_def ap_or_def ap_sextOrSelf_def ap_zextOrTrunc_def
  Integer_add_def lift_Integer_def ap_of_int_def makeBoundedInt_def
  set_heap_def set_variable_def signedValue_def getSExtValue_def asPointer_def Integer_zextOrTrunc_def
  variables_at_def ReturnName_def

lemmas interpretFunction_loop_numeral =
  interpretFunction_loop.simps(2) [of "pred_numeral k", folded numeral_eq_Suc] for k

declare interpretFunction.simps [simp del] interpretFunction_loop.simps [simp del]
  interpretBlock.simps [simp del] interpretBlock_instrs.simps [simp del]

lemmas run_defs =
  interpretFunction.simps interpretFunction_loop.simps interpretBlock.simps
  interpretBlock_instrs.simps interpretFunction_loop_numeral enterCall_def afterCall_def finishBlock_def recordStep_def
  map_subscript_def interpretICmpInst_def interpretIntPredicate_def cmp_Integer_def
  interpretBinOp_def interpretIntBinOp_def interpretBoolBinOp_def

lemmas module_defs = module_f_recursive_def f_blocks_def entry_a1_def

lemma bind_result_cong_weak: "r = r' \<Longrightarrow> bind_result r f = bind_result r' f"
  by simp

lemmas weak_congs =
  run.case_cong_weak sum.case_cong_weak option.case_cong_weak prod.case_cong_weak
  list.case_cong_weak bind_result_cong_weak

section \<open>Store and load\<close>

lemma store_32_at_4096:
  "interpretInstruction True
     (StoreInst 3 (IntegerTy 32) (ConstantInt (APInt 32 0x12345678)) (ArgumentV 1))
     (State [(Ptr 1, Some (VarInt (Bounded (APInt 64 4096))))] []) =
   Inr (State [(Ptr 1, Some (VarInt (Bounded (APInt 64 4096))))]
          [(Bounded (APInt 64 4100), Bounded (APInt 8 0x78)),
           (Bounded (APInt 64 4099), Bounded (APInt 8 0x56)),
           (Bounded (APInt 64 4098), Bounded (APInt 8 0x34)),
           (Bounded (APInt 64 4097), Bounded (APInt 8 0x12)),
           (Bounded (APInt 64 4096), Bounded (APInt 8 0))])"
  by (simp add: eval_defs upt_rec)

lemma load_32_at_4096:
  "interpretInstruction True (LoadInst 4 (IntegerTy 32) (ArgumentV 1))
     (State [(Ptr 1, Some (VarInt (Bounded (APInt 64 4096))))]
          [(Bounded (APInt 64 4100), Bounded (APInt 8 0x78)),
           (Bounded (APInt 64 4099), Bounded (APInt 8 0x56)),
           (Bounded (APInt 64 4098), Bounded (APInt 8 0x34)),
           (Bounded (APInt 64 4097), Bounded (APInt 8 0x12)),
           (Bounded (APInt 64 4096), Bounded (APInt 8 0))]) =
   Inr (State [(Ptr 1, Some (VarInt (Bounded (APInt 64 4096)))),
               (Ptr 4, Some (VarInt (Bounded (APInt 32 0x00123456))))]
          [(Bounded (APInt 64 4100), Bounded (APInt 8 0x78)),
           (Bounded (APInt 64 4099), Bounded (APInt 8 0x56)),
           (Bounded (APInt 64 4098), Bounded (APInt 8 0x34)),
           (Bounded (APInt 64 4097), Bounded (APInt 8 0x12)),
           (Bounded (APInt 64 4096), Bounded (APInt 8 0))])"
  by (simp add: eval_defs upt_rec)

text \<open>
  Claim C3 (store/load round trip). In bounded mode the code does not return the
  value stored: a 32-bit store of \<open>0x12345678\<close> at address 4096 runs its loop five
  times, writes the low byte to 4100, the next bytes to 4099, 4098 and 4097 and the
  sign byte to 4096, and the 32-bit load at 4096 that follows reads the cells 4096 to
  4099 and binds \<open>0x00123456\<close>.
\<close>

theorem bounded_store_then_load_differs:
  "bind_result
     (interpretInstruction True
        (StoreInst 3 (IntegerTy 32) (ConstantInt (APInt 32 0x12345678)) (ArgumentV 1))
        (State [(Ptr 1, Some (VarInt (Bounded (APInt 64 4096))))] []))
     (\<lambda>state. bind_result
        (interpretInstruction True (LoadInst 4 (IntegerTy 32) (ArgumentV 1)) state)
        (\<lambda>state'. Inr (map_of (variables state') (Ptr 4), map_of (heap state')
                          (Bounded (APInt 64 4100))))) =
   Inr (Some (Some (VarInt (Bounded (APInt 32 0x00123456)))), Some (Bounded (APInt 8 0x78)))"
  by (simp only: store_32_at_4096 load_32_at_4096 bind_result_simps) simp

section \<open>Loads of absent cells\<close>

lemma map_of_map_assign: "map_of (map_assign k v m) = (map_of m)(k \<mapsto> v)"
  by (induction m) auto

lemma map_assign_same: "map_of m k = Some v \<Longrightarrow> map_assign k v m = m"
  by (induction m) (auto split: if_splits)

lemma map_assign_idem: "map_assign k v (map_assign k v m) = map_assign k v m"
  by (simp add: map_assign_same map_of_map_assign)

lemma add_mod_bits:
  "nat ((int p + int (nat (int i mod 2 ^ 64))) mod 2 ^ 64) = (p + i) mod 2 ^ 64"
proof -
  have "(int p + int (nat (int i mod 2 ^ 64))) mod 2 ^ 64 = (int p + int i mod 2 ^ 64) mod 2 ^ 64"
    by simp
  also have "\<dots> = (int p + int i) mod 2 ^ 64"
    by (simp add: mod_add_right_eq)
  also have "\<dots> = int ((p + i) mod 2 ^ 64)"
    by (simp add: zmod_int)
  finally show ?thesis by simp
qed

lemma cell_key:
  "Integer_add (Bounded (APInt 64 p)) (asPointer True (Unbounded (int i))) =
     Inr (Bounded (APInt 64 ((p + i) mod 2 ^ 64)))"
  using add_mod_bits [of p i]
  by (simp add: Integer_add_def lift_Integer_def asPointer_def makeBoundedInt_def ap_of_int_def)

lemma key_inj:
  assumes "i < M" "j < M" "(p + i) mod M = (p + j) mod (M :: nat)"
  shows "i = j"
proof -
  have *: "a = b" if "a \<le> b" "b < M" "(p + a) mod M = (p + b) mod M" for a b
  proof -
    have "M dvd (p + b) - (p + a)"
      using that mod_eq_dvd_iff_nat [of "p + a" "p + b" M] by simp
    then have "M dvd b - a" by simp
    moreover have "b - a < M" using that by simp
    ultimately have "b - a = 0" using nat_dvd_not_less by blast
    with that show ?thesis by simp
  qed
  show ?thesis
  proof (cases "i \<le> j")
    case True
    with assms * show ?thesis by blast
  next
    case False
    then have "j \<le> i" by simp
    with assms * [of j i] show ?thesis by simp
  qed
qed

lemma load_bytes_absent:
  assumes "asPointer True a = Bounded (APInt 64 p)"
    and "distinct is" and "\<forall>i \<in> set is. i < 2 ^ 64"
    and "\<forall>i \<in> set is. map_of h (cell p i) = None"
    and "is \<noteq> [] \<longrightarrow> 0 < bytes"
  shows "load_bytes a bytes h (APInt (8 * bytes) 0) is =
         Inr (h @ map (\<lambda>i. (cell p i, zero8)) is, APInt (8 * bytes) 0)"
  using assms
proof (induction "is" arbitrary: h)
  case Nil
  then show ?case by simp
next
  case (Cons i "is")
  have or0: "ap_or (ap_shl (APInt (8 * bytes) 0) 8) (ap_sextOrSelf (bytes * 8) (APInt 8 0)) =
        Inr (APInt (8 * bytes) 0)"
    using Cons.prems(5)
    by (auto simp: ap_or_def ap_shl_def ap_sextOrSelf_def ap_of_int_def signedValue_def getSExtValue_def mult.commute)
  have absent: "\<forall>j \<in> set is. map_of (h @ [(cell p i, zero8)]) (cell p j) = None"
  proof
    fix j assume j: "j \<in> set is"
    then have "j \<noteq> i" using Cons.prems(2) by auto
    then have "cell p j \<noteq> cell p i"
      using key_inj [of j "2 ^ 64" i p] Cons.prems(3) j by auto
    then show "map_of (h @ [(cell p i, zero8)]) (cell p j) = None"
      using Cons.prems(4) j by (simp add: map_add_def)
  qed
  have "load_bytes a bytes (h @ [(cell p i, zero8)]) (APInt (8 * bytes) 0) is =
        Inr ((h @ [(cell p i, zero8)]) @ map (\<lambda>i. (cell p i, zero8)) is, APInt (8 * bytes) 0)"
    using Cons.prems absent by (intro Cons.IH) auto
  then show ?case
    using Cons.prems(1,4) or0
    by (simp add: cell_key map_insert_def map_at_def bind_result_simps makeBoundedInt_def
        ap_of_int_def map_add_def)
qed

lemma load_bytes_present:
  assumes "asPointer True a = Bounded (APInt 64 p)"
    and "\<forall>i \<in> set is. map_of h (cell p i) = Some zero8"
    and "is \<noteq> [] \<longrightarrow> 0 < bytes"
  shows "load_bytes a bytes h (APInt (8 * bytes) 0) is = Inr (h, APInt (8 * bytes) 0)"
  using assms
proof (induction "is")
  case Nil
  then show ?case by simp
next
  case (Cons i "is")
  have or0: "ap_or (ap_shl (APInt (8 * bytes) 0) 8) (ap_sextOrSelf (bytes * 8) (APInt 8 0)) =
        Inr (APInt (8 * bytes) 0)"
    using Cons.prems(3)
    by (auto simp: ap_or_def ap_shl_def ap_sextOrSelf_def ap_of_int_def signedValue_def getSExtValue_def mult.commute)
  show ?case
    using Cons or0
    by (simp add: cell_key map_insert_def map_at_def bind_result_simps)
qed


lemma resolveValue_other:
  "ptr \<noteq> InstructionV l \<Longrightarrow> ptr \<noteq> ArgumentV l \<Longrightarrow>
   resolveValue b ptr (State (map_assign (Ptr l) v vars) h') = resolveValue b ptr (State vars h)"
  by (cases ptr) (auto simp: resolveValue_def map_at_def map_of_map_assign)

lemma map_of_cells:
  "distinct is \<Longrightarrow> \<forall>i \<in> set is. i < 2 ^ 64 \<Longrightarrow> \<forall>i \<in> set is. map_of h (cell p i) = None \<Longrightarrow>
   \<forall>i \<in> set is. map_of (h @ map (\<lambda>i. (cell p i, zero8)) is) (cell p i) = Some zero8"
proof (induction "is")
  case Nil
  then show ?case by simp
next
  case (Cons i "is")
  then show ?case
    by (auto simp: map_add_def split: option.splits)
qed

lemma load_unbounded_absent:
  assumes "resolveValue False ptr state = Inr (Some (VarInt a))"
    and "ptr \<noteq> InstructionV load" "ptr \<noteq> ArgumentV load"
    and "map_of (heap state) (asPointer False a) = None"
  shows "\<exists>state'. interpretLoad False load ty ptr state = Inr state'
           \<and> map_of (variables state') (Ptr load) = Some (Some (VarInt (Unbounded 0)))
           \<and> heap state' = heap state @ [(asPointer False a, Unbounded 0)]
           \<and> interpretLoad False load ty ptr state' = Inr state'"
proof -
  let ?h = "heap state @ [(asPointer False a, Unbounded 0)]"
  let ?s = "State (map_assign (Ptr load) (Some (VarInt (Unbounded 0))) (variables state)) ?h"
  have 1: "interpretLoad False load ty ptr state = Inr ?s"
    using assms
    by (simp add: interpretLoad_def bind_result_simps asInt_def deref_def map_insert_def
        map_at_def set_variable_def set_heap_def map_add_def)
  have "resolveValue False ptr ?s = Inr (Some (VarInt a))"
    using assms(1-3) resolveValue_other [of ptr load False _ "variables state" ?h "heap state"]
    by simp
  then have 2: "interpretLoad False load ty ptr ?s = Inr ?s"
    using assms(4)
    by (simp add: interpretLoad_def bind_result_simps asInt_def deref_def map_insert_def
        map_at_def set_variable_def set_heap_def map_add_def map_assign_idem)
  show ?thesis
    using 1 2 by (simp add: map_of_map_assign)
qed

lemma load_bounded_absent:
  assumes "resolveValue True ptr state = Inr (Some (VarInt a))"
    and "ptr \<noteq> InstructionV load" "ptr \<noteq> ArgumentV load"
    and "asPointer True a = Bounded (APInt 64 p)"
    and "bytes \<le> 2 ^ 64"
    and "\<forall>i < bytes. map_of (heap state) (cell p i) = None"
  shows "\<exists>state'. interpretLoad True load (IntegerTy (8 * bytes)) ptr state = Inr state'
           \<and> map_of (variables state') (Ptr load) =
               Some (Some (VarInt (Bounded (APInt (8 * bytes) 0))))
           \<and> heap state' = heap state @ map (\<lambda>i. (cell p i, zero8)) [0..<bytes]
           \<and> interpretLoad True load (IntegerTy (8 * bytes)) ptr state' = Inr state'"
proof -
  let ?h = "heap state @ map (\<lambda>i. (cell p i, zero8)) [0..<bytes]"
  let ?v = "Some (VarInt (Bounded (APInt (8 * bytes) 0)))"
  let ?s = "State (map_assign (Ptr load) ?v (variables state)) ?h"
  have small: "\<forall>i \<in> set [0..<bytes]. i < 2 ^ 64"
    using assms(5) by auto
  have absent: "\<forall>i \<in> set [0..<bytes]. map_of (heap state) (cell p i) = None"
    using assms(6) by auto
  have lb: "load_bytes a bytes (heap state) (APInt (8 * bytes) 0) [0..<bytes] =
            Inr (?h, APInt (8 * bytes) 0)"
    using assms(4) small absent by (intro load_bytes_absent) auto
  have 1: "interpretLoad True load (IntegerTy (8 * bytes)) ptr state = Inr ?s"
    using assms(1) lb
    by (simp add: interpretLoad_def bind_result_simps asInt_def deref_def
        set_variable_def set_heap_def makeBoundedInt_def ap_of_int_def)
  have present: "\<forall>i \<in> set [0..<bytes]. map_of ?h (cell p i) = Some zero8"
    using small absent by (intro map_of_cells) auto
  have lb2: "load_bytes a bytes ?h (APInt (8 * bytes) 0) [0..<bytes] =
             Inr (?h, APInt (8 * bytes) 0)"
    using assms(4) present by (intro load_bytes_present) auto
  have "resolveValue True ptr ?s = Inr (Some (VarInt a))"
    using assms(1-3) resolveValue_other [of ptr load True _ "variables state" ?h "heap state"]
    by simp
  then have 2: "interpretLoad True load (IntegerTy (8 * bytes)) ptr ?s = Inr ?s"
    using lb2
    by (simp add: interpretLoad_def bind_result_simps asInt_def deref_def
        set_variable_def set_heap_def makeBoundedInt_def ap_of_int_def map_assign_idem)
  show ?thesis
    using 1 2 by (simp add: map_of_map_assign)
qed


text \<open>
  Claim C7 (zero fill), as amended. A load whose cells are all absent from the heap
  binds zero and appends the zero cells to the heap, and the same load on the state
  it returns returns that state again, in unbounded mode for every type (the one
  cell at the address, holding the unbounded zero), and in bounded mode for an integer
  type of \<open>8 * bytes\<close> bits with \<open>0 < bytes\<close> (the \<open>bytes\<close> 8-bit cells from the 64-bit
  address \<open>p\<close> on; the value is the zero of \<open>8 * bytes\<close> bits). The pointer operand is
  not the load itself.
\<close>

theorem load_of_absent_cells_zero_fills:
  "(resolveValue False ptr state = Inr (Some (VarInt a)) \<longrightarrow>
      ptr \<noteq> InstructionV load \<longrightarrow> ptr \<noteq> ArgumentV load \<longrightarrow>
      map_of (heap state) (asPointer False a) = None \<longrightarrow>
      (\<exists>state'. interpretInstruction False (LoadInst load ty ptr) state = Inr state'
         \<and> map_of (variables state') (Ptr load) = Some (Some (VarInt (Unbounded 0)))
         \<and> heap state' = heap state @ [(asPointer False a, Unbounded 0)]
         \<and> interpretInstruction False (LoadInst load ty ptr) state' = Inr state'))
   \<and> (resolveValue True ptr state = Inr (Some (VarInt a)) \<longrightarrow>
      ptr \<noteq> InstructionV load \<longrightarrow> ptr \<noteq> ArgumentV load \<longrightarrow>
      asPointer True a = Bounded (APInt 64 p) \<longrightarrow> 0 < bytes \<longrightarrow> bytes \<le> 2 ^ 64 \<longrightarrow>
      (\<forall>i < bytes. map_of (heap state) (Bounded (APInt 64 ((p + i) mod 2 ^ 64))) = None) \<longrightarrow>
      (\<exists>state'. interpretInstruction True (LoadInst load (IntegerTy (8 * bytes)) ptr) state =
           Inr state'
         \<and> map_of (variables state') (Ptr load) =
             Some (Some (VarInt (Bounded (APInt (8 * bytes) 0))))
         \<and> heap state' =
             heap state @
               map (\<lambda>i. (Bounded (APInt 64 ((p + i) mod 2 ^ 64)), Bounded (APInt 8 0)))
                 [0..<bytes]
         \<and> interpretInstruction True (LoadInst load (IntegerTy (8 * bytes)) ptr) state' =
             Inr state'))"
proof (intro conjI impI)
  assume "resolveValue False ptr state = Inr (Some (VarInt a))"
    "ptr \<noteq> InstructionV load" "ptr \<noteq> ArgumentV load"
    "map_of (heap state) (asPointer False a) = None"
  then show "\<exists>state'. interpretInstruction False (LoadInst load ty ptr) state = Inr state'
         \<and> map_of (variables state') (Ptr load) = Some (Some (VarInt (Unbounded 0)))
         \<and> heap state' = heap state @ [(asPointer False a, Unbounded 0)]
         \<and> interpretInstruction False (LoadInst load ty ptr) state' = Inr state'"
    using load_unbounded_absent [of ptr state a load ty] by simp
next
  assume "resolveValue True ptr state = Inr (Some (VarInt a))"
    "ptr \<noteq> InstructionV load" "ptr \<noteq> ArgumentV load"
    "asPointer True a = Bounded (APInt 64 p)" "0 < bytes" "bytes \<le> 2 ^ 64"
    "\<forall>i < bytes. map_of (heap state) (Bounded (APInt 64 ((p + i) mod 2 ^ 64))) = None"
  then show "\<exists>state'. interpretInstruction True (LoadInst load (IntegerTy (8 * bytes)) ptr) state =
           Inr state'
         \<and> map_of (variables state') (Ptr load) =
             Some (Some (VarInt (Bounded (APInt (8 * bytes) 0))))
         \<and> heap state' =
             heap state @
               map (\<lambda>i. (Bounded (APInt 64 ((p + i) mod 2 ^ 64)), Bounded (APInt 8 0)))
                 [0..<bytes]
         \<and> interpretInstruction True (LoadInst load (IntegerTy (8 * bytes)) ptr) state' =
             Inr state'"
    using load_bounded_absent [of ptr state a load p bytes] by simp
qed

theorem load_of_absent_cells_zero_fills_witness:
  "(\<exists>state'. interpretInstruction False (LoadInst 4 (IntegerTy 32) (ArgumentV 1))
        (State [(Ptr 1, Some (VarInt (Unbounded 100)))] []) = Inr state'
      \<and> map_of (variables state') (Ptr 4) = Some (Some (VarInt (Unbounded 0)))
      \<and> heap state' = [(Unbounded 100, Unbounded 0)]
      \<and> interpretInstruction False (LoadInst 4 (IntegerTy 32) (ArgumentV 1)) state' = Inr state')
   \<and> (\<exists>state'. interpretInstruction True (LoadInst 4 (IntegerTy 32) (ArgumentV 1))
        (State [(Ptr 1, Some (VarInt (Bounded (APInt 64 4096))))] []) = Inr state'
      \<and> map_of (variables state') (Ptr 4) = Some (Some (VarInt (Bounded (APInt 32 0))))
      \<and> heap state' =
          [(Bounded (APInt 64 4096), Bounded (APInt 8 0)),
           (Bounded (APInt 64 4097), Bounded (APInt 8 0)),
           (Bounded (APInt 64 4098), Bounded (APInt 8 0)),
           (Bounded (APInt 64 4099), Bounded (APInt 8 0))]
      \<and> interpretInstruction True (LoadInst 4 (IntegerTy 32) (ArgumentV 1)) state' = Inr state')"
proof -
  have u: "resolveValue False (ArgumentV 1) (State [(Ptr 1, Some (VarInt (Unbounded 100)))] []) =
           Inr (Some (VarInt (Unbounded 100)))"
    by (simp add: resolveValue_def map_at_def)
  have b: "resolveValue True (ArgumentV 1)
             (State [(Ptr 1, Some (VarInt (Bounded (APInt 64 4096))))] []) =
           Inr (Some (VarInt (Bounded (APInt 64 4096))))"
    by (simp add: resolveValue_def map_at_def)
  have p: "asPointer True (Bounded (APInt 64 4096)) = Bounded (APInt 64 4096)"
    by (simp add: asPointer_def ap_zextOrTrunc_def)
  have l: "[0..<4] = [0, 1, 2, 3::nat]"
    by (simp add: upt_rec)
  have A: "\<exists>state'. interpretInstruction False (LoadInst 4 (IntegerTy 32) (ArgumentV 1))
        (State [(Ptr 1, Some (VarInt (Unbounded 100)))] []) = Inr state'
      \<and> map_of (variables state') (Ptr 4) = Some (Some (VarInt (Unbounded 0)))
      \<and> heap state' = [(Unbounded 100, Unbounded 0)]
      \<and> interpretInstruction False (LoadInst 4 (IntegerTy 32) (ArgumentV 1)) state' = Inr state'"
    using load_of_absent_cells_zero_fills
      [where ptr = "ArgumentV 1" and state = "State [(Ptr 1, Some (VarInt (Unbounded 100)))] []"
         and a = "Unbounded 100" and load = 4 and ty = "IntegerTy 32", THEN conjunct1] u
    by (simp add: asPointer_def)
  have B: "\<exists>state'. interpretInstruction True (LoadInst 4 (IntegerTy 32) (ArgumentV 1))
        (State [(Ptr 1, Some (VarInt (Bounded (APInt 64 4096))))] []) = Inr state'
      \<and> map_of (variables state') (Ptr 4) = Some (Some (VarInt (Bounded (APInt 32 0))))
      \<and> heap state' =
          [(Bounded (APInt 64 4096), Bounded (APInt 8 0)),
           (Bounded (APInt 64 4097), Bounded (APInt 8 0)),
           (Bounded (APInt 64 4098), Bounded (APInt 8 0)),
           (Bounded (APInt 64 4099), Bounded (APInt 8 0))]
      \<and> interpretInstruction True (LoadInst 4 (IntegerTy 32) (ArgumentV 1)) state' = Inr state'"
    using load_of_absent_cells_zero_fills
      [where ptr = "ArgumentV 1"
         and state = "State [(Ptr 1, Some (VarInt (Bounded (APInt 64 4096))))] []"
         and a = "Bounded (APInt 64 4096)" and load = 4 and p = 4096 and bytes = 4,
       THEN conjunct2] b p
    by (simp add: l)
  show ?thesis
    by (rule conjI [OF A B])
qed

text \<open>
  In bounded mode the number of cells is the width divided by 8, rounded down. A load
  of \<^verbatim>\<open>i1\<close> at an absent address binds the 1-bit zero and leaves the heap empty: no cell
  is inserted. A load of \<^verbatim>\<open>i12\<close> reads one cell and fails when it combines the 12-bit
  accumulator with the 8-bit cell; a load of a pointer type fails at
  \<^verbatim>\<open>getIntegerBitWidth()\<close>.
\<close>

theorem bounded_load_of_other_widths:
  "interpretInstruction True (LoadInst 4 (IntegerTy 1) (ArgumentV 1))
     (State [(Ptr 1, Some (VarInt (Bounded (APInt 64 4096))))] []) =
   Inr (State [(Ptr 1, Some (VarInt (Bounded (APInt 64 4096)))),
               (Ptr 4, Some (VarInt (Bounded (APInt 1 0))))] [])
   \<and> interpretInstruction True (LoadInst 4 (IntegerTy 12) (ArgumentV 1))
       (State [(Ptr 1, Some (VarInt (Bounded (APInt 64 4096))))] []) = Inl AssertionFailed
   \<and> interpretInstruction True (LoadInst 4 PointerTy (ArgumentV 1))
       (State [(Ptr 1, Some (VarInt (Bounded (APInt 64 4096))))] []) = Inl AssertionFailed"
  by (simp add: eval_defs upt_rec)

section \<open>Casts\<close>

text \<open>
  Claim C8 (integer-to-pointer cast). The code binds the result under the null key,
  which is the sentinel \<open>ReturnName\<close>, and leaves the cast's own reference unbound:
  for \<^verbatim>\<open>%7 = inttoptr i64 %2 to i8*\<close> with \<open>%2 = 5\<close>, the state afterwards binds
  \<open>ReturnName\<close> to 5 and has no binding for \<open>Ptr 7\<close>.
\<close>

theorem inttoptr_binds_return_sentinel:
  "interpretInstruction False (CastInst 7 IntToPtr (IntegerTy 64) PointerTy (ArgumentV 2))
     (State [(Ptr 2, Some (VarInt (Unbounded 5)))] []) =
   Inr (State [(Ptr 2, Some (VarInt (Unbounded 5))),
               (ReturnName, Some (VarInt (Unbounded 5)))] [])"
  by (simp add: eval_defs)

section \<open>Calls\<close>

lemma run_f_calls_g:
  "interpretFunction 10 False module_f_calls_g 10 entry_a1 10 =
   Done (Call ''f'' (State [(Ptr 1, Some (VarInt (Unbounded 1)))] [])
     (State [(Ptr 1, Some (VarInt (Unbounded 1))), (Ptr 2, Some (VarBool False)),
             (Ptr 3, Some (VarInt (Unbounded 0))), (ReturnName, Some (VarInt (Unbounded 1)))] [])
     [BlockStep ''entry'' (State [(Ptr 1, Some (VarInt (Unbounded 1)))] []) [],
      BlockStep ''rec''
        (State [(Ptr 1, Some (VarInt (Unbounded 1))), (Ptr 2, Some (VarBool False))] [])
        [Call ''f'' (State [(Ptr 1, Some (VarInt (Unbounded 0)))] [])
           (State [(Ptr 1, Some (VarInt (Unbounded 0))), (Ptr 2, Some (VarBool True)),
                   (ReturnName, Some (VarInt (Unbounded 0)))] [])
           [BlockStep ''entry'' (State [(Ptr 1, Some (VarInt (Unbounded 0)))] []) [],
            BlockStep ''done''
              (State [(Ptr 1, Some (VarInt (Unbounded 0))), (Ptr 2, Some (VarBool True))] [])
              []]
           False 2],
      BlockStep ''done''
        (State [(Ptr 1, Some (VarInt (Unbounded 1))), (Ptr 2, Some (VarBool False)),
                (Ptr 3, Some (VarInt (Unbounded 0)))] [])
        []]
     False 5)"
  by (simp add: module_f_calls_g_def entry_a1_def f_blocks_def eval_defs run_defs
      cong: weak_congs)

text \<open>
  Claim C1 (call instructions). The function the code interprets at a call is
  \<^verbatim>\<open>call->getFunction()\<close>, the function the call stands in, not the function called. In
  \<open>module_f_calls_g\<close>, \<open>f\<close> run on \<open>a = 1\<close> reaches \<^verbatim>\<open>%3 = call g(0)\<close>: the record nested
  in the step of block \<open>rec\<close> is a run of \<open>f\<close> on \<open>a = 0\<close>, and \<open>%3\<close> is bound to 0, the
  value \<open>f\<close> returns there, where \<open>g\<close> returns 42.
\<close>

theorem call_interprets_enclosing_function:
  "(case interpretFunction 10 False module_f_calls_g 10 entry_a1 10 of
      Done c \<Rightarrow>
        map functionName (calls (steps c ! 1)) = [''f'']
        \<and> map entryState (calls (steps c ! 1)) = [State [(Ptr 1, Some (VarInt (Unbounded 0)))] []]
        \<and> map_of (variables (returnState c)) (Ptr 3) = Some (Some (VarInt (Unbounded 0)))
    | _ \<Rightarrow> False)
   \<and> map_of (f_blocks 20) 101 =
       Some (BasicBlock ''rec'' [CallInst 3 10 20 [ConstantInt (APInt 32 0)]] (BranchInst 102))
   \<and> map funGetName (map snd module_f_calls_g) = [''f'', ''g'']"
  by (simp only: run_f_calls_g) (simp add: module_f_calls_g_def f_blocks_def ReturnName_def)

section \<open>Unsupported constructs\<close>

text \<open>
  Claim C5 (unsupported constructs). The code logs and goes on. \<^verbatim>\<open>%3 = and i1 true, true\<close>
  binds \<open>%3\<close> to \<open>false\<close>; a comparison with a predicate outside the ten binds \<open>false\<close>;
  an instruction of no known kind leaves the state as it is; a terminator of no known
  kind ends the function as a return does. None of them is an \<open>Inl\<close>.
\<close>

theorem unsupported_constructs_continue:
  "interpretInstruction False
     (BinaryOperator 3 And (IntegerTy 1) (ConstantInt (APInt 1 1)) (ConstantInt (APInt 1 1)))
     (State [] []) = Inr (State [(Ptr 3, Some (VarBool False))] [])
   \<and> interpretInstruction False
       (ICmpInst 3 OtherPredicate (ConstantInt (APInt 32 1)) (ConstantInt (APInt 32 1)))
       (State [] []) = Inr (State [(Ptr 3, Some (VarBool False))] [])
   \<and> interpretInstruction False (OtherInstruction 3) (State [] []) = Inr (State [] [])
   \<and> interpretTerminator False OtherTerminator (State [] []) = Inr (None, State [] [])"
  by (simp add: eval_defs run_defs)

section \<open>PHIs and the snapshot\<close>

lemma interpretBlock_step:
  assumes "interpretBlock n BoundedFlag M block prevBlock state maxSteps = Done (update, state')"
  shows "interpretPHIs BoundedFlag (takeWhile isPHI (instructions block)) state prevBlock =
           Inr (upd_step update)"
  using assms
  by (auto simp: interpretBlock.simps finishBlock_def bind_result_def
      split: sum.splits run.splits prod.splits if_splits)

lemma interpretPHI_incoming:
  assumes "interpretPHI BoundedFlag (PHINode phi incoming) st prevBlock = Inr st'"
  shows "\<exists>b val var. prevBlock = Some b \<and> map_of incoming b = Some val
           \<and> resolveValue BoundedFlag val st = Inr var
           \<and> st' = set_variable (Ptr phi) var st"
  using assms
  by (auto simp: bind_result_def split: option.splits sum.splits)

lemma foldl_bind_Inl:
  "foldl (\<lambda>r inst. bind_result r (\<lambda>s. f inst s)) (Inl e) insts = Inl e"
  by (induction insts) (simp_all add: bind_result_simps)

lemma interpretPHIs_foldl:
  "interpretPHIs BoundedFlag insts state prevBlock =
     foldl (\<lambda>r inst. bind_result r (\<lambda>s. interpretPHI BoundedFlag inst s prevBlock))
       (Inr state) insts"
proof (induction insts arbitrary: state)
  case Nil
  then show ?case by simp
next
  case (Cons inst rest)
  show ?case
  proof (cases "interpretPHI BoundedFlag inst state prevBlock")
    case (Inl e)
    then show ?thesis by (simp add: bind_result_simps foldl_bind_Inl)
  next
    case (Inr s)
    then show ?thesis by (simp add: bind_result_simps Cons.IH)
  qed
qed

lemma interpretPHI_keeps:
  assumes "interpretPHI BoundedFlag inst st prevBlock = Inr st'"
  shows "(\<exists>phi incoming. inst = PHINode phi incoming
            \<and> map_of (variables st') (Ptr phi) \<noteq> None)
         \<and> (\<forall>k. map_of (variables st) k \<noteq> None \<longrightarrow> map_of (variables st') k \<noteq> None)"
  using assms
  by (cases inst)
     (auto simp: bind_result_def set_variable_def map_of_map_assign
       split: option.splits sum.splits)

lemma interpretPHIs_keeps:
  "interpretPHIs BoundedFlag insts st prevBlock = Inr st' \<Longrightarrow>
   map_of (variables st) k \<noteq> None \<Longrightarrow> map_of (variables st') k \<noteq> None"
proof (induction insts arbitrary: st)
  case Nil
  then show ?case by simp
next
  case (Cons inst rest)
  from Cons.prems(1) obtain s where s: "interpretPHI BoundedFlag inst st prevBlock = Inr s"
    and r: "interpretPHIs BoundedFlag rest s prevBlock = Inr st'"
    by (auto simp: bind_result_def split: sum.splits)
  from interpretPHI_keeps [OF s] Cons.prems(2) have "map_of (variables s) k \<noteq> None"
    by blast
  with Cons.IH [OF r] show ?case .
qed

lemma interpretPHIs_bound:
  "interpretPHIs BoundedFlag insts st prevBlock = Inr st' \<Longrightarrow>
   \<forall>inst \<in> set insts. \<exists>phi incoming. inst = PHINode phi incoming
      \<and> map_of (variables st') (Ptr phi) \<noteq> None"
proof (induction insts arbitrary: st)
  case Nil
  then show ?case by simp
next
  case (Cons inst rest)
  from Cons.prems(1) obtain s where s: "interpretPHI BoundedFlag inst st prevBlock = Inr s"
    and r: "interpretPHIs BoundedFlag rest s prevBlock = Inr st'"
    by (auto simp: bind_result_def split: sum.splits)
  from interpretPHI_keeps [OF s] obtain phi incoming where
    i: "inst = PHINode phi incoming" and b: "map_of (variables s) (Ptr phi) \<noteq> None"
    by blast
  from interpretPHIs_keeps [OF r b] i Cons.IH [OF r] show ?case
    by auto
qed

lemma loop_cases:
  assumes "interpretFunction_loop (Suc n) BoundedFlag M fun entry maxSteps prevBlock currentBlock
             recorded currentState visited = Done c"
  obtains block update state' where
    "map_of (getBasicBlocks fun) currentBlock = Some block"
    "interpretBlock n BoundedFlag M block prevBlock currentState (maxSteps - visited) =
       Done (update, state')"
    "visited + upd_blocksVisited update > maxSteps \<or> upd_earlyExit update"
    "c = Call (funGetName fun) entry state' (recorded @ [recordStep block update]) True
           (visited + upd_blocksVisited update)"
  | block update state' where
    "map_of (getBasicBlocks fun) currentBlock = Some block"
    "interpretBlock n BoundedFlag M block prevBlock currentState (maxSteps - visited) =
       Done (update, state')"
    "\<not> (visited + upd_blocksVisited update > maxSteps \<or> upd_earlyExit update)"
    "upd_nextBlock update = None"
    "c = Call (funGetName fun) entry state' (recorded @ [recordStep block update]) False
           (visited + upd_blocksVisited update)"
  | block update state' nb where
    "map_of (getBasicBlocks fun) currentBlock = Some block"
    "interpretBlock n BoundedFlag M block prevBlock currentState (maxSteps - visited) =
       Done (update, state')"
    "\<not> (visited + upd_blocksVisited update > maxSteps \<or> upd_earlyExit update)"
    "upd_nextBlock update = Some nb"
    "interpretFunction_loop n BoundedFlag M fun entry maxSteps (Some currentBlock) nb
       (recorded @ [recordStep block update]) state' (visited + upd_blocksVisited update) =
     Done c"
  using assms
  by (auto simp: interpretFunction_loop.simps split: option.splits run.splits if_splits)

lemma loop_steps_prefix:
  "interpretFunction_loop n BoundedFlag M fun entry maxSteps prevBlock currentBlock recorded
     currentState visited = Done c \<Longrightarrow> \<exists>more. steps c = recorded @ more"
proof (induction n arbitrary: prevBlock currentBlock recorded currentState visited)
  case 0
  then show ?case by (simp add: interpretFunction_loop.simps)
next
  case (Suc n)
  from Suc.prems(1) show ?case
  proof (cases rule: loop_cases)
    case (3 block update state' nb)
    from Suc.IH [OF 3(5)] show ?thesis by auto
  qed auto
qed

lemma loop_records_block:
  assumes "interpretFunction_loop (Suc n) BoundedFlag M fun entry maxSteps prevBlock currentBlock
             recorded currentState visited = Done c"
  shows "\<exists>block update state'.
           map_of (getBasicBlocks fun) currentBlock = Some block
           \<and> interpretBlock n BoundedFlag M block prevBlock currentState (maxSteps - visited) =
               Done (update, state')
           \<and> length recorded < length (steps c)
           \<and> steps c ! length recorded = recordStep block update"
  using assms
proof (cases rule: loop_cases)
  case (3 block update state' nb)
  from loop_steps_prefix [OF 3(5)] obtain more where
    "steps c = (recorded @ [recordStep block update]) @ more" by blast
  then have "length recorded < length (steps c)"
    "steps c ! length recorded = recordStep block update"
    by (simp_all add: nth_append)
  with 3 show ?thesis by blast
qed auto

text \<open>
  Claim C6 (PHIs before the snapshot). Whenever an iteration of the loop of
  \<^verbatim>\<open>interpretFunction\<close> on the block \<open>currentBlock\<close>, entered from \<open>prevBlock\<close> in the state
  \<open>currentState\<close>, leads to a call record, the step that this iteration records (the one
  after those recorded before) carries the name of the block and, as its state, the
  result of running \<^verbatim>\<open>interpretPHI\<close> on every leading PHI of the block, one after the
  other from \<open>currentState\<close>, and on nothing else: the instructions after the PHIs do
  not show in it. Every leading PHI is bound in that state. The same holds for the
  snapshot \<open>upd_step\<close> of every block interpretation that returns an update. A PHI binds
  the value that its incoming list gives for the previous block, resolved in the state
  before it.
\<close>

theorem snapshot_is_state_after_phis:
  "(interpretFunction_loop (Suc n) BoundedFlag M func entry maxSteps prevBlock currentBlock
      recorded currentState visited = Done c \<longrightarrow>
      (\<exists>block. map_of (getBasicBlocks func) currentBlock = Some block
         \<and> length recorded < length (steps c)
         \<and> blockName (steps c ! length recorded) = blockGetName block
         \<and> foldl (\<lambda>r inst. bind_result r (\<lambda>s. interpretPHI BoundedFlag inst s prevBlock))
             (Inr currentState) (takeWhile isPHI (instructions block)) =
           Inr (stepState (steps c ! length recorded))
         \<and> (\<forall>inst \<in> set (takeWhile isPHI (instructions block)).
              \<exists>phi incoming. inst = PHINode phi incoming
                \<and> map_of (variables (stepState (steps c ! length recorded))) (Ptr phi) \<noteq> None)))
   \<and> (interpretBlock m BoundedFlag M block prevBlock state budget = Done (update, state') \<longrightarrow>
        foldl (\<lambda>r inst. bind_result r (\<lambda>s. interpretPHI BoundedFlag inst s prevBlock))
          (Inr state) (takeWhile isPHI (instructions block)) = Inr (upd_step update))
   \<and> (interpretPHI BoundedFlag (PHINode phi incoming) st prevBlock = Inr st' \<longrightarrow>
      (\<exists>b val var. prevBlock = Some b \<and> map_of incoming b = Some val
         \<and> resolveValue BoundedFlag val st = Inr var
         \<and> st' = set_variable (Ptr phi) var st))"
proof (intro conjI impI)
  assume "interpretFunction_loop (Suc n) BoundedFlag M func entry maxSteps prevBlock currentBlock
      recorded currentState visited = Done c"
  from loop_records_block [OF this] obtain block update state' where
    b: "map_of (getBasicBlocks func) currentBlock = Some block"
    and r: "interpretBlock n BoundedFlag M block prevBlock currentState (maxSteps - visited) =
               Done (update, state')"
    and l: "length recorded < length (steps c)"
    and s: "steps c ! length recorded = recordStep block update"
    by blast
  note p = interpretBlock_step [OF r]
  from p have "foldl (\<lambda>r inst. bind_result r (\<lambda>s. interpretPHI BoundedFlag inst s prevBlock))
             (Inr currentState) (takeWhile isPHI (instructions block)) =
           Inr (stepState (steps c ! length recorded))"
    by (simp add: interpretPHIs_foldl s recordStep_def)
  moreover from interpretPHIs_bound [OF p]
  have "\<forall>inst \<in> set (takeWhile isPHI (instructions block)).
              \<exists>phi incoming. inst = PHINode phi incoming
                \<and> map_of (variables (stepState (steps c ! length recorded))) (Ptr phi) \<noteq> None"
    by (simp add: s recordStep_def)
  ultimately show "\<exists>block. map_of (getBasicBlocks func) currentBlock = Some block
         \<and> length recorded < length (steps c)
         \<and> blockName (steps c ! length recorded) = blockGetName block
         \<and> foldl (\<lambda>r inst. bind_result r (\<lambda>s. interpretPHI BoundedFlag inst s prevBlock))
             (Inr currentState) (takeWhile isPHI (instructions block)) =
           Inr (stepState (steps c ! length recorded))
         \<and> (\<forall>inst \<in> set (takeWhile isPHI (instructions block)).
              \<exists>phi incoming. inst = PHINode phi incoming
                \<and> map_of (variables (stepState (steps c ! length recorded))) (Ptr phi) \<noteq> None)"
    using b l s by (auto simp: recordStep_def)
next
  assume "interpretBlock m BoundedFlag M block prevBlock state budget = Done (update, state')"
  from interpretBlock_step [OF this]
  show "foldl (\<lambda>r inst. bind_result r (\<lambda>s. interpretPHI BoundedFlag inst s prevBlock))
          (Inr state) (takeWhile isPHI (instructions block)) = Inr (upd_step update)"
    by (simp add: interpretPHIs_foldl)
next
  assume "interpretPHI BoundedFlag (PHINode phi incoming) st prevBlock = Inr st'"
  then show "\<exists>b val var. prevBlock = Some b \<and> map_of incoming b = Some val
         \<and> resolveValue BoundedFlag val st = Inr var
         \<and> st' = set_variable (Ptr phi) var st"
    by (rule interpretPHI_incoming)
qed

theorem snapshot_is_state_after_phis_witness:
  "interpretFunction 3 False [(30, phi_function)] 30 entry_a1 5 = Done phi_call
   \<and> interpretFunction_loop (Suc 1) False [(30, phi_function)] phi_function entry_a1 5 (Some 100)
       200 [BlockStep ''entry'' entry_a1 []] entry_a1 1 = Done phi_call
   \<and> interpretBlock 0 False [(30, phi_function)] phi_join (Some 100) entry_a1 4 =
       Done (BlockUpdate (stepState (steps phi_call ! 1)) None [] False 1, returnState phi_call)
   \<and> blockName (steps phi_call ! 1) = ''join''
   \<and> foldl (\<lambda>r inst. bind_result r (\<lambda>s. interpretPHI False inst s (Some 100))) (Inr entry_a1)
       [PHINode 5 [(100, ArgumentV 1)], PHINode 6 [(100, ConstantInt (APInt 32 7))]] =
     Inr (stepState (steps phi_call ! 1))
   \<and> stepState (steps phi_call ! 1) =
       State [(Ptr 1, Some (VarInt (Unbounded 1))), (Ptr 5, Some (VarInt (Unbounded 1))),
              (Ptr 6, Some (VarInt (Unbounded 7)))] []
   \<and> map_of (variables (stepState (steps phi_call ! 1))) (Ptr 5) \<noteq> None
   \<and> map_of (variables (stepState (steps phi_call ! 1))) (Ptr 6) \<noteq> None
   \<and> map_of (variables (stepState (steps phi_call ! 1))) (Ptr 7) = None
   \<and> map_of (variables (returnState phi_call)) (Ptr 7) = Some (Some (VarInt (Unbounded 8)))
   \<and> (\<exists>b val var. Some (100::nat) = Some b
         \<and> map_of [(100::nat, ConstantInt (APInt 32 7))] b = Some val
         \<and> resolveValue False val (State [(Ptr 1, Some (VarInt (Unbounded 1))),
                                           (Ptr 5, Some (VarInt (Unbounded 1)))] []) = Inr var
         \<and> State [(Ptr 1, Some (VarInt (Unbounded 1))), (Ptr 5, Some (VarInt (Unbounded 1))),
                   (Ptr 6, Some (VarInt (Unbounded 7)))] [] =
             set_variable (Ptr 6) var (State [(Ptr 1, Some (VarInt (Unbounded 1))),
                                              (Ptr 5, Some (VarInt (Unbounded 1)))] []))"
proof -
  have full: "interpretFunction 3 False [(30, phi_function)] 30 entry_a1 5 = Done phi_call"
    by (simp add: phi_function_def phi_join_def phi_call_def entry_a1_def eval_defs run_defs
        cong: weak_congs)
  have loop: "interpretFunction_loop (Suc 1) False [(30, phi_function)] phi_function entry_a1 5
       (Some 100) 200 [BlockStep ''entry'' entry_a1 []] entry_a1 1 = Done phi_call"
    by (simp add: phi_function_def phi_join_def phi_call_def entry_a1_def eval_defs run_defs
        cong: weak_congs)
  have block: "interpretBlock 0 False [(30, phi_function)] phi_join (Some 100) entry_a1 4 =
       Done (BlockUpdate (stepState (steps phi_call ! 1)) None [] False 1, returnState phi_call)"
    by (simp add: phi_join_def phi_call_def entry_a1_def eval_defs run_defs cong: weak_congs)
  have phi: "interpretPHI False (PHINode 6 [(100, ConstantInt (APInt 32 7))])
               (State [(Ptr 1, Some (VarInt (Unbounded 1))),
                       (Ptr 5, Some (VarInt (Unbounded 1)))] []) (Some 100) =
             Inr (State [(Ptr 1, Some (VarInt (Unbounded 1))), (Ptr 5, Some (VarInt (Unbounded 1))),
                         (Ptr 6, Some (VarInt (Unbounded 7)))] [])"
    by (simp add: eval_defs)
  note inst = snapshot_is_state_after_phis
    [where n = 1 and BoundedFlag = False and M = "[(30, phi_function)]" and func = phi_function
       and entry = entry_a1 and maxSteps = 5 and prevBlock = "Some 100" and currentBlock = 200
       and recorded = "[BlockStep ''entry'' entry_a1 []]" and currentState = entry_a1
       and visited = 1 and c = phi_call and m = 0 and block = phi_join and state = entry_a1
       and budget = 4
       and update = "BlockUpdate (stepState (steps phi_call ! 1)) None [] False 1"
       and state' = "returnState phi_call" and phi = 6
       and incoming = "[(100, ConstantInt (APInt 32 7))]"
       and st = "State [(Ptr 1, Some (VarInt (Unbounded 1))),
                        (Ptr 5, Some (VarInt (Unbounded 1)))] []"
       and st' = "State [(Ptr 1, Some (VarInt (Unbounded 1))), (Ptr 5, Some (VarInt (Unbounded 1))),
                         (Ptr 6, Some (VarInt (Unbounded 7)))] []"]
  from inst [THEN conjunct1, rule_format, OF loop]
  have A: "blockName (steps phi_call ! 1) = ''join''
     \<and> foldl (\<lambda>r inst. bind_result r (\<lambda>s. interpretPHI False inst s (Some 100))) (Inr entry_a1)
         [PHINode 5 [(100, ArgumentV 1)], PHINode 6 [(100, ConstantInt (APInt 32 7))]] =
       Inr (stepState (steps phi_call ! 1))
     \<and> map_of (variables (stepState (steps phi_call ! 1))) (Ptr 5) \<noteq> None
     \<and> map_of (variables (stepState (steps phi_call ! 1))) (Ptr 6) \<noteq> None"
    by (simp add: phi_function_def phi_join_def)
  from inst [THEN conjunct2, THEN conjunct1, rule_format, OF block]
  have A': "foldl (\<lambda>r inst. bind_result r (\<lambda>s. interpretPHI False inst s (Some 100)))
              (Inr entry_a1) (takeWhile isPHI (instructions phi_join)) =
            Inr (stepState (steps phi_call ! 1))"
    by simp
  from inst [THEN conjunct2, THEN conjunct2, rule_format, OF phi]
  have B: "\<exists>b val var. Some (100::nat) = Some b
         \<and> map_of [(100::nat, ConstantInt (APInt 32 7))] b = Some val
         \<and> resolveValue False val (State [(Ptr 1, Some (VarInt (Unbounded 1))),
                                           (Ptr 5, Some (VarInt (Unbounded 1)))] []) = Inr var
         \<and> State [(Ptr 1, Some (VarInt (Unbounded 1))), (Ptr 5, Some (VarInt (Unbounded 1))),
                   (Ptr 6, Some (VarInt (Unbounded 7)))] [] =
             set_variable (Ptr 6) var (State [(Ptr 1, Some (VarInt (Unbounded 1))),
                                              (Ptr 5, Some (VarInt (Unbounded 1)))] [])" .
  have C: "stepState (steps phi_call ! 1) =
       State [(Ptr 1, Some (VarInt (Unbounded 1))), (Ptr 5, Some (VarInt (Unbounded 1))),
              (Ptr 6, Some (VarInt (Unbounded 7)))] []
   \<and> map_of (variables (stepState (steps phi_call ! 1))) (Ptr 7) = None
   \<and> map_of (variables (returnState phi_call)) (Ptr 7) = Some (Some (VarInt (Unbounded 8)))"
    by (simp add: phi_call_def ReturnName_def)
  show ?thesis
    using full loop block A A' B C by simp
qed

section \<open>Counting block visits\<close>

lemma afterCall_fields:
  "blocksVisited (snd (afterCall inst c state)) = blocksVisited c"
  "earlyExit (snd (afterCall inst c state)) = earlyExit c"
  "steps (snd (afterCall inst c state)) = steps c"
  by (simp_all add: afterCall_def split: prod.splits)

lemma counting:
  "interpretFunction n BoundedFlag M f entry maxSteps = Done c \<Longrightarrow> \<not> earlyExit c \<Longrightarrow>
     blocksVisited c = of_nat (recordedVisits (steps c))"
  "interpretFunction_loop n BoundedFlag M fun entry maxSteps prevBlock currentBlock recorded
     currentState visited = Done c \<Longrightarrow> \<not> earlyExit c \<Longrightarrow>
     blocksVisited c + of_nat (recordedVisits recorded) =
       visited + of_nat (recordedVisits (steps c))"
  "interpretBlock n BoundedFlag M block prevBlock state maxSteps = Done (update, state') \<Longrightarrow>
     \<not> upd_earlyExit update \<Longrightarrow>
     upd_blocksVisited update = of_nat (stepVisits (recordStep block update))"
  "interpretBlock_instrs n BoundedFlag M insts state maxSteps nested visited =
     Done (state', nested', early, visited') \<Longrightarrow> \<not> early \<Longrightarrow>
     visited' + of_nat (callVisits nested) = visited + of_nat (callVisits nested')"
proof (induction n BoundedFlag M f entry maxSteps
    and n BoundedFlag M "fun" entry maxSteps prevBlock currentBlock recorded currentState visited
    and n BoundedFlag M block prevBlock state maxSteps
    and n BoundedFlag M insts state maxSteps nested visited
    arbitrary: c and c and update state' and state' nested' early visited'
    rule: interpretFunction_interpretFunction_loop_interpretBlock_interpretBlock_instrs.induct)
  case (1 n BoundedFlag M f entry maxSteps)
  then show ?case
    by (auto simp: interpretFunction.simps recordedVisits_def split: option.splits)
next
  case (2 BoundedFlag M "fun" entry maxSteps prevBlock currentBlock recorded currentState visited)
  then show ?case by (simp add: interpretFunction_loop.simps)
next
  case (3 n BoundedFlag M "fun" entry maxSteps prevBlock currentBlock recorded currentState visited)
  from "3.prems" obtain block update state' where
    block: "map_of (getBasicBlocks fun) currentBlock = Some block"
    and run: "interpretBlock n BoundedFlag M block prevBlock currentState (maxSteps - visited) =
              Done (update, state')"
    by (auto simp: interpretFunction_loop.simps split: option.splits run.splits)
  from "3.prems" block run have ok:
    "\<not> (visited + upd_blocksVisited update > maxSteps \<or> upd_earlyExit update)"
    by (auto simp: interpretFunction_loop.simps split: if_splits)
  have k: "upd_blocksVisited update = of_nat (stepVisits (recordStep block update))"
    using "3.IH"(1) [OF block run] ok by simp
  show ?case
  proof (cases "upd_nextBlock update")
    case None
    with "3.prems" block run ok k show ?thesis
      by (auto simp: interpretFunction_loop.simps recordedVisits_def)
  next
    case (Some "next")
    with "3.prems" block run ok have
      "interpretFunction_loop n BoundedFlag M fun entry maxSteps (Some currentBlock) next
         (recorded @ [recordStep block update]) state' (visited + upd_blocksVisited update) =
       Done c"
      by (auto simp: interpretFunction_loop.simps)
    from "3.IH"(2) [OF block run refl ok Some this "3.prems"(2)] k show ?thesis
      by (simp add: recordedVisits_def)
  qed
next
  case (4 n BoundedFlag M block prevBlock state maxSteps)
  from "4.prems" obtain step st nested visited where
    phis: "interpretPHIs BoundedFlag (takeWhile isPHI (instructions block)) state prevBlock = Inr step"
    and run: "interpretBlock_instrs n BoundedFlag M (dropWhile isPHI (instructions block)) step
                maxSteps [] 1 = Done (st, nested, False, visited)"
    and upd: "upd_calls update = nested" "upd_blocksVisited update = visited"
    by (auto simp: interpretBlock.simps finishBlock_def bind_result_def
        split: sum.splits run.splits if_splits)
  from "4.IH" [OF phis run] upd show ?case
    by (simp add: stepVisits_def recordStep_def callVisits_def)
next
  case (5 n BoundedFlag M state maxSteps nested visited)
  then show ?case by (simp add: interpretBlock_instrs.simps)
next
  case (6 n BoundedFlag M inst rest state maxSteps nested visited)
  show ?case
  proof (cases "isCall inst")
    case True
    with "6.prems" obtain callState c where
      enter: "enterCall BoundedFlag M inst state = Inr callState"
      and run: "interpretFunction n BoundedFlag M (getFunction inst) callState
                  (maxSteps - visited) = Done c"
      by (auto simp: interpretBlock_instrs.simps split: sum.splits run.splits)
    from "6.prems" True enter run have ok:
      "\<not> (visited + blocksVisited c > maxSteps \<or> earlyExit c)"
      by (auto simp: interpretBlock_instrs.simps split: if_splits)
    with "6.prems" True enter run have
      "interpretBlock_instrs n BoundedFlag M rest (fst (afterCall inst c state)) maxSteps
         (nested @ [snd (afterCall inst c state)]) (visited + blocksVisited c) =
       Done (state', nested', early, visited')"
      by (auto simp: interpretBlock_instrs.simps)
    from "6.IH"(2) [OF True enter run ok this "6.prems"(2)] show ?thesis
      by (simp add: afterCall_fields callVisits_def)
  next
    case False
    with "6.prems" obtain st where
      step: "interpretInstruction BoundedFlag inst state = Inr st"
      and "interpretBlock_instrs n BoundedFlag M rest st maxSteps nested visited =
           Done (state', nested', early, visited')"
      by (auto simp: interpretBlock_instrs.simps split: sum.splits)
    from "6.IH"(3) [OF False step this(2) "6.prems"(2)] show ?thesis .
  qed
qed



lemma sum_ge_length: "length ss \<le> recordedVisits ss"
  by (induction ss) (simp_all add: recordedVisits_def stepVisits_def)

lemma interpretPHIs_entry:
  "interpretPHIs BoundedFlag insts st None = Inr s \<Longrightarrow> insts = [] \<and> s = st"
proof (cases insts)
  case Nil
  then show "interpretPHIs BoundedFlag insts st None = Inr s \<Longrightarrow> insts = [] \<and> s = st"
    by simp
next
  case (Cons inst rest)
  have "interpretPHI BoundedFlag inst st None = Inl AssertionFailed"
    by (cases inst) simp_all
  with Cons show "interpretPHIs BoundedFlag insts st None = Inr s \<Longrightarrow> insts = [] \<and> s = st"
    by (simp add: bind_result_simps)
qed

lemma instrs_without_calls:
  "list_all (\<lambda>inst. \<not> isCall inst) insts \<Longrightarrow>
   interpretBlock_instrs n BoundedFlag M insts state maxSteps nested visited \<noteq> OutOfFuel
   \<and> (\<forall>r. interpretBlock_instrs n BoundedFlag M insts state maxSteps nested visited = Done r \<longrightarrow>
         (\<exists>st. r = (st, nested, False, visited)))"
proof (induction insts arbitrary: state)
  case Nil
  then show ?case by (simp add: interpretBlock_instrs.simps)
next
  case (Cons inst rest)
  from Cons.prems have c: "\<not> isCall inst" and r: "list_all (\<lambda>inst. \<not> isCall inst) rest"
    by simp_all
  show ?case
  proof (cases "interpretInstruction BoundedFlag inst state")
    case (Inl e)
    with c show ?thesis by (simp add: interpretBlock_instrs.simps)
  next
    case (Inr st)
    with c Cons.IH [OF r, of st] show ?thesis by (auto simp: interpretBlock_instrs.simps)
  qed
qed

lemma block_without_calls:
  assumes "list_all (\<lambda>inst. \<not> isCall inst) (instructions block)"
  shows "interpretBlock n BoundedFlag M block None state maxSteps \<noteq> OutOfFuel
   \<and> (\<forall>u. interpretBlock n BoundedFlag M block None state maxSteps = Done u \<longrightarrow>
         upd_step (fst u) = state \<and> upd_calls (fst u) = [] \<and> \<not> upd_earlyExit (fst u)
         \<and> upd_blocksVisited (fst u) = 1)"
proof -
  have "list_all (\<lambda>inst. \<not> isCall inst) (dropWhile isPHI (instructions block))"
    using assms by (auto simp: list_all_iff dest: set_dropWhileD)
  note i = instrs_without_calls [OF this, of n BoundedFlag M _ maxSteps "[]" 1]
  show ?thesis
  proof (cases "interpretPHIs BoundedFlag (takeWhile isPHI (instructions block)) state None")
    case (Inl e)
    then show ?thesis by (simp add: interpretBlock.simps)
  next
    case (Inr step)
    from interpretPHIs_entry [OF this] have step: "step = state" by simp
    show ?thesis
    proof (cases "interpretBlock_instrs n BoundedFlag M (dropWhile isPHI (instructions block))
                    state maxSteps [] 1")
      case OutOfFuel
      with i [of state] show ?thesis by simp
    next
      case (Abort e)
      with Inr step show ?thesis by (simp add: interpretBlock.simps)
    next
      case (Done r)
      with i [of state] obtain st where r: "r = (st, [], False, 1)" by auto
      with Inr step Done show ?thesis
        by (auto simp: interpretBlock.simps finishBlock_def bind_result_def
            split: sum.splits prod.splits)
    qed
  qed
qed

lemma budget_zero:
  assumes "map_of M f = Some func"
    and "map_of (getBasicBlocks func) (getEntryBlock func) = Some block"
    and "list_all (\<lambda>inst. \<not> isCall inst) (instructions block)"
  shows "interpretFunction (Suc n) BoundedFlag M f entry 0 \<noteq> OutOfFuel
      \<and> (\<forall>c. interpretFunction (Suc n) BoundedFlag M f entry 0 = Done c \<longrightarrow>
           earlyExit c \<and> blocksVisited c = 1
           \<and> steps c = [BlockStep (blockGetName block) entry []])"
proof (cases "interpretBlock n BoundedFlag M block None entry 0")
  case OutOfFuel
  with block_without_calls [OF assms(3), of n BoundedFlag M entry 0] show ?thesis by simp
next
  case (Abort e)
  with assms(1,2) show ?thesis
    by (simp add: interpretFunction.simps interpretFunction_loop.simps)
next
  case (Done u)
  obtain update state' where u: "u = (update, state')" by (cases u)
  from block_without_calls [OF assms(3), of n BoundedFlag M entry 0] Done u
  have "upd_step update = entry" "upd_calls update = []" "upd_blocksVisited update = 1"
    by auto
  with assms(1,2) Done u show ?thesis
    by (simp add: interpretFunction.simps interpretFunction_loop.simps recordStep_def)
qed

text \<open>
  Claim C9 (what \<open>blocksVisited\<close> counts), as amended. For a call record that is not an
  early exit, \<open>blocksVisited\<close> is the sum over its recorded steps of one plus the
  \<open>blocksVisited\<close> of the calls recorded in the step, as a 32-bit counter, that is modulo
  \<open>2 ^ 32\<close>; when the sum is below \<open>2 ^ 32\<close> it is that sum, and at least the number of
  recorded steps. A run with budget 0 of a function whose entry block contains no call
  does not run out of fuel, and when it returns a record, the record is an early exit
  with \<open>blocksVisited = 1\<close> and one step, which carries the name of the entry block, the
  entry state and no calls.
\<close>

theorem blocksVisited_counts_recorded_steps:
  "(interpretFunction n BoundedFlag M f entry maxSteps = Done c \<longrightarrow> \<not> earlyExit c \<longrightarrow>
      blocksVisited c = of_nat (recordedVisits (steps c))
      \<and> (recordedVisits (steps c) < 2 ^ 32 \<longrightarrow>
           unat (blocksVisited c) = recordedVisits (steps c)
           \<and> length (steps c) \<le> unat (blocksVisited c)))
   \<and> (map_of M f = Some func \<longrightarrow>
      map_of (getBasicBlocks func) (getEntryBlock func) = Some block \<longrightarrow>
      list_all (\<lambda>inst. \<not> isCall inst) (instructions block) \<longrightarrow>
      interpretFunction (Suc k) BoundedFlag M f entry 0 \<noteq> OutOfFuel
      \<and> (\<forall>c. interpretFunction (Suc k) BoundedFlag M f entry 0 = Done c \<longrightarrow>
           earlyExit c \<and> blocksVisited c = 1
           \<and> steps c = [BlockStep (blockGetName block) entry []]))"
proof (intro conjI impI)
  assume r: "interpretFunction n BoundedFlag M f entry maxSteps = Done c" and e: "\<not> earlyExit c"
  from counting(1) [OF r e] show w: "blocksVisited c = of_nat (recordedVisits (steps c))" .
  assume small: "recordedVisits (steps c) < 2 ^ 32"
  with w show u: "unat (blocksVisited c) = recordedVisits (steps c)"
    by (simp add: of_nat_inverse)
  from sum_ge_length [of "steps c"] u show "length (steps c) \<le> unat (blocksVisited c)"
    by simp
next
  assume "map_of M f = Some func"
    "map_of (getBasicBlocks func) (getEntryBlock func) = Some block"
    "list_all (\<lambda>inst. \<not> isCall inst) (instructions block)"
  from budget_zero [OF this]
  show "interpretFunction (Suc k) BoundedFlag M f entry 0 \<noteq> OutOfFuel"
    "\<forall>c. interpretFunction (Suc k) BoundedFlag M f entry 0 = Done c \<longrightarrow>
           earlyExit c \<and> blocksVisited c = 1
           \<and> steps c = [BlockStep (blockGetName block) entry []]"
    by blast+
qed

theorem blocksVisited_counts_recorded_steps_witness:
  "interpretFunction 10 False module_f_recursive 10 entry_a1 5 = Done complete_call
   \<and> \<not> earlyExit complete_call
   \<and> recordedVisits (steps complete_call) = 5
   \<and> blocksVisited complete_call = of_nat (recordedVisits (steps complete_call))
   \<and> unat (blocksVisited complete_call) = recordedVisits (steps complete_call)
   \<and> length (steps complete_call) \<le> unat (blocksVisited complete_call)
   \<and> interpretFunction (Suc 9) False module_f_recursive 10 entry_a1 0 = Done zero_budget_call
   \<and> earlyExit zero_budget_call \<and> blocksVisited zero_budget_call = 1
   \<and> steps zero_budget_call = [BlockStep ''entry'' entry_a1 []]"
proof -
  have run: "interpretFunction 10 False module_f_recursive 10 entry_a1 5 = Done complete_call"
    by (simp add: module_defs complete_call_def eval_defs run_defs cong: weak_congs)
  have zero: "interpretFunction (Suc 9) False module_f_recursive 10 entry_a1 0 =
              Done zero_budget_call"
    by (simp add: module_defs zero_budget_call_def eval_defs run_defs cong: weak_congs)
  have c: "\<not> earlyExit complete_call" "recordedVisits (steps complete_call) = 5"
    by (simp_all add: complete_call_def recordedVisits_def stepVisits_def callVisits_def)
  have m: "map_of module_f_recursive 10 = Some (Function ''f'' [1] 100 (f_blocks 10))"
    "map_of (getBasicBlocks (Function ''f'' [1] 100 (f_blocks 10)))
       (getEntryBlock (Function ''f'' [1] 100 (f_blocks 10))) =
     Some (BasicBlock ''entry'' [ICmpInst 2 ICMP_EQ (ArgumentV 1) (ConstantInt (APInt 32 0))]
             (CondBranchInst (InstructionV 2) 102 101))"
    "list_all (\<lambda>inst. \<not> isCall inst)
       (instructions (BasicBlock ''entry''
          [ICmpInst 2 ICMP_EQ (ArgumentV 1) (ConstantInt (APInt 32 0))]
          (CondBranchInst (InstructionV 2) 102 101)))"
    by (simp_all add: module_defs)
  note inst = blocksVisited_counts_recorded_steps
    [where n = 10 and BoundedFlag = False and M = module_f_recursive and f = 10
      and entry = entry_a1 and maxSteps = 5 and c = complete_call and k = 9
      and func = "Function ''f'' [1] 100 (f_blocks 10)"
      and block = "BasicBlock ''entry''
          [ICmpInst 2 ICMP_EQ (ArgumentV 1) (ConstantInt (APInt 32 0))]
          (CondBranchInst (InstructionV 2) 102 101)"]
  from inst [THEN conjunct1, rule_format, OF run c(1)] c(2)
  have A: "blocksVisited complete_call = of_nat (recordedVisits (steps complete_call))
     \<and> unat (blocksVisited complete_call) = recordedVisits (steps complete_call)
     \<and> length (steps complete_call) \<le> unat (blocksVisited complete_call)"
    by simp
  from inst [THEN conjunct2, rule_format, OF m, THEN conjunct2, rule_format, OF zero]
  have B: "earlyExit zero_budget_call \<and> blocksVisited zero_budget_call = 1
     \<and> steps zero_budget_call = [BlockStep ''entry'' entry_a1 []]"
    by simp
  show ?thesis
    using run zero c A B by simp
qed

text \<open>
  A nested call that exits early is counted and not recorded. With budget 3 the call
  in \<open>rec\<close> gets the budget 1 and exits early after two visits: the record of \<open>f\<close> reports
  four visits and its two steps, neither with a call, account for two.
\<close>

theorem early_exit_drops_nested_visits:
  "interpretFunction 10 False module_f_recursive 10 entry_a1 3 = Done (truncated_call 4)
   \<and> blocksVisited (truncated_call 4) = 4
   \<and> recordedVisits (steps (truncated_call 4)) = 2
   \<and> blocksVisited (truncated_call 4) \<noteq> of_nat (recordedVisits (steps (truncated_call 4)))"
  by (simp add: module_defs truncated_call_def eval_defs run_defs
      recordedVisits_def stepVisits_def callVisits_def cong: weak_congs)

section \<open>The step budget\<close>

lemma loop_within_budget:
  "interpretFunction_loop n BoundedFlag M fun entry maxSteps prevBlock currentBlock recorded
     currentState visited = Done c \<Longrightarrow> \<not> earlyExit c \<Longrightarrow> blocksVisited c \<le> maxSteps"
proof (induction n arbitrary: prevBlock currentBlock recorded currentState visited)
  case 0
  then show ?case by (simp add: interpretFunction_loop.simps)
next
  case (Suc n)
  from Suc.prems(1) show ?case
  proof (cases rule: loop_cases)
    case (1 block update state')
    with Suc.prems show ?thesis by simp
  next
    case (2 block update state')
    then show ?thesis by (simp add: not_less)
  next
    case (3 block update state' nb)
    from Suc.IH [OF 3(5) Suc.prems(2)] show ?thesis .
  qed
qed

lemma function_within_budget:
  "interpretFunction n BoundedFlag M f entry maxSteps = Done c \<Longrightarrow> \<not> earlyExit c \<Longrightarrow>
   blocksVisited c \<le> maxSteps"
  by (auto simp: interpretFunction.simps split: option.splits dest: loop_within_budget)

lemma instrs_nested_prefix:
  "interpretBlock_instrs n BoundedFlag M insts state maxSteps nested visited =
     Done (state', nested', early, visited') \<Longrightarrow> \<exists>more. nested' = nested @ more"
proof (induction insts arbitrary: state nested visited)
  case Nil
  then show ?case by (simp add: interpretBlock_instrs.simps)
next
  case (Cons inst rest)
  from Cons.prems show ?case
    by (auto simp: interpretBlock_instrs.simps split: if_splits sum.splits run.splits
        dest!: Cons.IH)
qed

lemma noWrap_afterCall: "noWrap (snd (afterCall inst c state)) = noWrap c"
  by (cases c) (simp add: afterCall_def split: prod.splits)

lemma noWrap_not_max: "noWrap c \<Longrightarrow> blocksVisited c \<noteq> - 1"
  by (cases c) simp

lemma unat_max_32: "unat (- 1 :: 32 word) = 4294967295"
  by (simp add: unsigned_minus_1_eq_mask mask_eq_exp_minus_1)

lemma not_max_32: "((b::32 word) \<noteq> - 1) = (unat b \<noteq> 4294967295)"
  using unat_max_32 by (metis word_unat_eq_iff)

lemma unat_add_within:
  fixes v :: "32 word"
  assumes "v \<le> m" "b \<le> m - v"
  shows "unat (v + b) = unat v + unat b"
proof -
  have "unat (m - v) = unat m - unat v"
    using assms(1) by (rule unat_sub)
  with assms have "unat v + unat b \<le> unat m"
    by (simp add: word_le_nat_alt)
  moreover have "unat m < 2 ^ LENGTH(32)"
    by (rule unsigned_less)
  ultimately have "unat v + unat b < 2 ^ LENGTH(32)"
    by (rule le_less_trans)
  then show ?thesis
    by (simp only: unat_add_lem)
qed

lemma add_within_budget: "(k0::32 word) \<le> m \<Longrightarrow> b \<le> m - k0 \<Longrightarrow> k0 \<le> k0 + b \<and> k0 + b \<le> m"
  by (simp add: word_le_nat_alt unat_add_within unat_sub)

lemma less_add_over_budget:
  "(k0::32 word) \<le> m \<Longrightarrow> \<not> b \<le> m - k0 \<Longrightarrow> k0 \<le> m' \<Longrightarrow> b \<le> m' - k0 \<Longrightarrow> m < k0 + b"
  by (simp add: word_le_nat_alt word_less_nat_alt unat_add_within [of k0 m' b] unat_sub)

lemma sub_not_max: "(k0::32 word) \<noteq> 0 \<Longrightarrow> k0 \<le> m \<Longrightarrow> m - k0 \<noteq> - 1"
  using unsigned_less [of m, where ?'a = nat]
  by (simp add: not_max_32 unat_sub word_le_nat_alt unat_eq_zero [symmetric])

lemma one_add_zero_max: "\<not> ((1::32 word) + b > 0) \<Longrightarrow> b = - 1"
  by (simp add: word_neq_0_conv [symmetric] add_eq_0_iff)

lemma less_add_one: "(v::32 word) \<noteq> - 1 \<Longrightarrow> v < v + 1"
  unfolding not_max_32 by unat_arith simp

lemma not_one_le_zero: "\<not> (1::32 word) \<le> m \<Longrightarrow> m = 0"
  by unat_arith

lemma le_not_zero: "(k0::32 word) \<noteq> 0 \<Longrightarrow> k0 \<le> k1 \<Longrightarrow> k1 \<noteq> 0"
  by unat_arith

lemma sim_instrs:
  assumes fn: "\<And>f entry B' c' B.
      interpretFunction n BoundedFlag M f entry B' = Done c' \<Longrightarrow> \<not> earlyExit c' \<Longrightarrow>
      B' \<noteq> - 1 \<Longrightarrow> noWrap c' \<Longrightarrow>
      (blocksVisited c' \<le> B \<longrightarrow> interpretFunction n BoundedFlag M f entry B = Done c')
      \<and> (B < blocksVisited c' \<longrightarrow>
           (\<exists>c. interpretFunction n BoundedFlag M f entry B = Done c \<and> earlyExit c))"
  shows "interpretBlock_instrs n BoundedFlag M insts state m' nested ka =
           Done (st', nested', False, k') \<Longrightarrow>
         list_all noWrap nested' \<Longrightarrow> ka \<noteq> 0 \<Longrightarrow> ka \<le> m' \<or> ka = 1 \<Longrightarrow>
         ka \<le> k' \<and> (k' \<le> m' \<or> k' = 1)
         \<and> (\<forall>m. interpretBlock_instrs n BoundedFlag M insts state m nested ka =
                   Done (st', nested', False, k')
                \<or> (m < k' \<and> (\<exists>st nst k. interpretBlock_instrs n BoundedFlag M insts state m
                                            nested ka = Done (st, nst, True, k))))"
proof (induction insts arbitrary: state nested ka)
  case Nil
  then show ?case by (auto simp: interpretBlock_instrs.simps)
next
  case (Cons inst rest)
  show ?case
  proof (cases "isCall inst")
    case False
    with Cons.prems(1) obtain st1 where
      step: "interpretInstruction BoundedFlag inst state = Inr st1"
      and rest: "interpretBlock_instrs n BoundedFlag M rest st1 m' nested ka =
                 Done (st', nested', False, k')"
      by (auto simp: interpretBlock_instrs.simps split: sum.splits)
    from Cons.IH [OF rest Cons.prems(2,3,4)] False step show ?thesis
      by (simp add: interpretBlock_instrs.simps)
  next
    case True
    with Cons.prems(1) obtain callState c1 where
      enter: "enterCall BoundedFlag M inst state = Inr callState"
      and run: "interpretFunction n BoundedFlag M (getFunction inst) callState (m' - ka) =
                Done c1"
      by (auto simp: interpretBlock_instrs.simps split: sum.splits run.splits)
    from Cons.prems(1) True enter run have ok:
      "\<not> (ka + blocksVisited c1 > m' \<or> earlyExit c1)"
      by (auto simp: interpretBlock_instrs.simps split: if_splits)
    with Cons.prems(1) True enter run have rest:
      "interpretBlock_instrs n BoundedFlag M rest (fst (afterCall inst c1 state)) m'
         (nested @ [snd (afterCall inst c1 state)]) (ka + blocksVisited c1) =
       Done (st', nested', False, k')"
      by (auto simp: interpretBlock_instrs.simps)
    from instrs_nested_prefix [OF rest] Cons.prems(2) have nw: "noWrap c1"
      by (auto simp: noWrap_afterCall)
    then have n1: "blocksVisited c1 \<noteq> - 1"
      by (rule noWrap_not_max)
    have le: "ka \<le> m'"
    proof (rule ccontr)
      assume "\<not> ka \<le> m'"
      with Cons.prems(4) have "ka = 1" "m' = 0"
        by (auto dest: not_one_le_zero)
      with ok have "\<not> (1 + blocksVisited c1 > 0)" by simp
      from one_add_zero_max [OF this] n1 show False by simp
    qed
    have ne: "m' - ka \<noteq> - 1"
      using Cons.prems(3) le by (rule sub_not_max)
    from ok have e1: "\<not> earlyExit c1" by simp
    from function_within_budget [OF run e1] have b1: "blocksVisited c1 \<le> m' - ka" .
    from add_within_budget [OF le b1] have k1: "ka \<le> ka + blocksVisited c1" "ka + blocksVisited c1 \<le> m'"
      by simp_all
    from le_not_zero [OF Cons.prems(3) k1(1)] have k1n: "ka + blocksVisited c1 \<noteq> 0" .
    from Cons.IH [OF rest Cons.prems(2) k1n] k1(2) have ih:
      "ka + blocksVisited c1 \<le> k'" "k' \<le> m' \<or> k' = 1"
      "\<And>m. interpretBlock_instrs n BoundedFlag M rest (fst (afterCall inst c1 state)) m
              (nested @ [snd (afterCall inst c1 state)]) (ka + blocksVisited c1) =
             Done (st', nested', False, k')
           \<or> (m < k' \<and> (\<exists>st nst k. interpretBlock_instrs n BoundedFlag M rest
                  (fst (afterCall inst c1 state)) m (nested @ [snd (afterCall inst c1 state)])
                  (ka + blocksVisited c1) = Done (st, nst, True, k)))"
      by blast+
    have sim: "interpretBlock_instrs n BoundedFlag M (inst # rest) state m nested ka =
                   Done (st', nested', False, k')
                \<or> (m < k' \<and> (\<exists>st nst k. interpretBlock_instrs n BoundedFlag M (inst # rest)
                                 state m nested ka = Done (st, nst, True, k)))" for m
    proof (cases "blocksVisited c1 \<le> m - ka")
      case same: True
      with fn [OF run e1 ne nw, of "m - ka"] have
        act: "interpretFunction n BoundedFlag M (getFunction inst) callState (m - ka) = Done c1"
        by simp
      show ?thesis
      proof (cases "ka + blocksVisited c1 > m")
        case True
        with ih(1) have "m < k'" by simp
        with True \<open>isCall inst\<close> enter act show ?thesis
          by (simp add: interpretBlock_instrs.simps)
      next
        case False
        with \<open>isCall inst\<close> enter act e1 ih(3) [of m] show ?thesis
          by (simp add: interpretBlock_instrs.simps)
      qed
    next
      case less: False
      then have "m - ka < blocksVisited c1" by simp
      with fn [OF run e1 ne nw, of "m - ka"] obtain c where
        act: "interpretFunction n BoundedFlag M (getFunction inst) callState (m - ka) = Done c"
        and early: "earlyExit c"
        by blast
      have "m < k'"
      proof (cases "ka \<le> m")
        case True
        from less_add_over_budget [OF True less le b1] ih(1) show ?thesis by simp
      next
        case False
        with k1(1) ih(1) show ?thesis by simp
      qed
      with \<open>isCall inst\<close> enter act early show ?thesis
        by (simp add: interpretBlock_instrs.simps)
    qed
    from k1(1) ih(1) have "ka \<le> k'" by simp
    with ih(2) sim show ?thesis by blast
  qed
qed

lemma sim_block:
  assumes fn: "\<And>f entry B' c' B.
      interpretFunction n BoundedFlag M f entry B' = Done c' \<Longrightarrow> \<not> earlyExit c' \<Longrightarrow>
      B' \<noteq> - 1 \<Longrightarrow> noWrap c' \<Longrightarrow>
      (blocksVisited c' \<le> B \<longrightarrow> interpretFunction n BoundedFlag M f entry B = Done c')
      \<and> (B < blocksVisited c' \<longrightarrow>
           (\<exists>c. interpretFunction n BoundedFlag M f entry B = Done c \<and> earlyExit c))"
    and ref: "interpretBlock n BoundedFlag M block prevBlock state m' = Done (u', st')"
    and ne: "\<not> upd_earlyExit u'"
    and nw: "list_all noWrap (upd_calls u')"
  shows "upd_blocksVisited u' \<noteq> 0
     \<and> (upd_blocksVisited u' \<le> m' \<or> upd_blocksVisited u' = 1)
     \<and> (\<forall>m. interpretBlock n BoundedFlag M block prevBlock state m = Done (u', st')
            \<or> (m < upd_blocksVisited u'
                \<and> (\<exists>u st. interpretBlock n BoundedFlag M block prevBlock state m = Done (u, st)
                      \<and> upd_earlyExit u)))"
proof -
  from ref ne obtain step st1 nested' k' where
    phis: "interpretPHIs BoundedFlag (takeWhile isPHI (instructions block)) state prevBlock =
           Inr step"
    and run: "interpretBlock_instrs n BoundedFlag M (dropWhile isPHI (instructions block)) step
                m' [] 1 = Done (st1, nested', False, k')"
    and fin: "finishBlock BoundedFlag block step (st1, nested', False, k') = Inr (u', st')"
    by (auto simp: interpretBlock.simps finishBlock_def bind_result_def
        split: sum.splits run.splits if_splits prod.splits)
  from fin have u: "upd_calls u' = nested'" "upd_blocksVisited u' = k'"
    by (auto simp: finishBlock_def bind_result_def split: sum.splits prod.splits)
  from nw u have nw': "list_all noWrap nested'" by simp
  have "1 \<le> k' \<and> (k' \<le> m' \<or> k' = 1)
     \<and> (\<forall>m. interpretBlock_instrs n BoundedFlag M (dropWhile isPHI (instructions block)) step m
            [] 1 = Done (st1, nested', False, k')
         \<or> (m < k' \<and> (\<exists>st nst k. interpretBlock_instrs n BoundedFlag M
                (dropWhile isPHI (instructions block)) step m [] 1 = Done (st, nst, True, k))))"
    by (rule sim_instrs [where ka = 1, OF _ run nw']) (rule fn, assumption+, simp_all)
  then have s:
    "1 \<le> k'" "k' \<le> m' \<or> k' = 1"
    "\<And>m. interpretBlock_instrs n BoundedFlag M (dropWhile isPHI (instructions block)) step m
            [] 1 = Done (st1, nested', False, k')
         \<or> (m < k' \<and> (\<exists>st nst k. interpretBlock_instrs n BoundedFlag M
                (dropWhile isPHI (instructions block)) step m [] 1 = Done (st, nst, True, k)))"
    by blast+
  from s(1) have "k' \<noteq> 0" by (rule le_not_zero [rotated]) simp
  moreover have "interpretBlock n BoundedFlag M block prevBlock state m = Done (u', st')
            \<or> (m < k'
                \<and> (\<exists>u st. interpretBlock n BoundedFlag M block prevBlock state m = Done (u, st)
                      \<and> upd_earlyExit u))" for m
    using s(3) [of m] phis fin
    by (auto simp: interpretBlock.simps finishBlock_def)
  ultimately show ?thesis
    using s(2) u(2) by simp
qed

lemma sim_loop:
  "interpretFunction_loop n BoundedFlag M func entry B' prevBlock currentBlock recorded
     currentState v = Done c' \<Longrightarrow>
   \<not> earlyExit c' \<Longrightarrow> B' \<noteq> - 1 \<Longrightarrow> v \<le> B' \<Longrightarrow> list_all noWrapStep (steps c') \<Longrightarrow>
   v \<le> blocksVisited c'
   \<and> (\<forall>B. v \<le> B \<longrightarrow>
        (blocksVisited c' \<le> B \<longrightarrow>
           interpretFunction_loop n BoundedFlag M func entry B prevBlock currentBlock recorded
             currentState v = Done c')
        \<and> (B < blocksVisited c' \<longrightarrow>
             (\<exists>c. interpretFunction_loop n BoundedFlag M func entry B prevBlock currentBlock
                    recorded currentState v = Done c \<and> earlyExit c)))"
proof (induction n arbitrary: func entry B' prevBlock currentBlock recorded currentState v c')
  case 0
  then show ?case by (simp add: interpretFunction_loop.simps)
next
  case (Suc n)
  have fn: "(blocksVisited c \<le> B \<longrightarrow> interpretFunction n BoundedFlag M f e B = Done c)
      \<and> (B < blocksVisited c \<longrightarrow>
           (\<exists>d. interpretFunction n BoundedFlag M f e B = Done d \<and> earlyExit d))"
    if r: "interpretFunction n BoundedFlag M f e A = Done c" and ne: "\<not> earlyExit c"
      and A: "A \<noteq> - 1" and nw: "noWrap c" for f e A c B
  proof -
    from r obtain g where g: "map_of M f = Some g"
      and l: "interpretFunction_loop n BoundedFlag M g e A None (getEntryBlock g) [] e 0 = Done c"
      by (auto simp: interpretFunction.simps split: option.splits)
    from nw have "list_all noWrapStep (steps c)" by (cases c) simp
    from Suc.IH [OF l ne A _ this] g show ?thesis
      by (simp add: interpretFunction.simps)
  qed
  from Suc.prems(1) show ?case
  proof (cases rule: loop_cases)
    case (1 block u st')
    with Suc.prems(2) show ?thesis by simp
  next
    case (2 block u st')
    from Suc.prems(5) 2(5) have nw: "list_all noWrap (upd_calls u)"
      by (simp add: recordStep_def)
    from 2(3) have ne: "\<not> upd_earlyExit u" and ok: "\<not> v + upd_blocksVisited u > B'"
      by simp_all
    have "upd_blocksVisited u \<noteq> 0
      \<and> (upd_blocksVisited u \<le> B' - v \<or> upd_blocksVisited u = 1)
      \<and> (\<forall>m. interpretBlock n BoundedFlag M block prevBlock currentState m = Done (u, st')
            \<or> (m < upd_blocksVisited u
                \<and> (\<exists>u2 st2. interpretBlock n BoundedFlag M block prevBlock currentState m =
                      Done (u2, st2) \<and> upd_earlyExit u2)))"
      by (rule sim_block [OF _ 2(2) ne nw]) (rule fn; assumption)
    then have sb:
      "upd_blocksVisited u \<le> B' - v \<or> upd_blocksVisited u = 1"
      "\<And>m. interpretBlock n BoundedFlag M block prevBlock currentState m = Done (u, st')
            \<or> (m < upd_blocksVisited u
                \<and> (\<exists>u2 st2. interpretBlock n BoundedFlag M block prevBlock currentState m =
                      Done (u2, st2) \<and> upd_earlyExit u2))"
      by blast+
    have bv: "upd_blocksVisited u \<le> B' - v"
    proof (rule ccontr)
      assume a: "\<not> upd_blocksVisited u \<le> B' - v"
      with sb(1) have one: "upd_blocksVisited u = 1" by simp
      with a have "B' - v = 0" by (auto dest: not_one_le_zero)
      then have "v = B'" by simp
      with Suc.prems(3) less_add_one [of v] one ok show False by simp
    qed
    from add_within_budget [OF Suc.prems(4) bv] have mono: "v \<le> v + upd_blocksVisited u" by simp
    have "(blocksVisited c' \<le> B \<longrightarrow>
           interpretFunction_loop (Suc n) BoundedFlag M func entry B prevBlock currentBlock
             recorded currentState v = Done c')
        \<and> (B < blocksVisited c' \<longrightarrow>
             (\<exists>c. interpretFunction_loop (Suc n) BoundedFlag M func entry B prevBlock
                    currentBlock recorded currentState v = Done c \<and> earlyExit c))"
      if vB: "v \<le> B" for B
      using sb(2) [of "B - v"]
    proof
      assume same: "interpretBlock n BoundedFlag M block prevBlock currentState (B - v) =
                    Done (u, st')"
      with 2(1,4,5) ne show ?thesis
        by (auto simp: interpretFunction_loop.simps)
    next
      assume "B - v < upd_blocksVisited u
                \<and> (\<exists>u2 st2. interpretBlock n BoundedFlag M block prevBlock currentState (B - v) =
                      Done (u2, st2) \<and> upd_earlyExit u2)"
      then obtain u2 st2 where less: "\<not> upd_blocksVisited u \<le> B - v"
        and act: "interpretBlock n BoundedFlag M block prevBlock currentState (B - v) =
                      Done (u2, st2)" and early: "upd_earlyExit u2"
        by auto
      from less_add_over_budget [OF vB less Suc.prems(4) bv] have "B < blocksVisited c'"
        using 2(5) by simp
      with 2(1) act early show ?thesis
        by (auto simp: interpretFunction_loop.simps)
    qed
    with mono 2(5) show ?thesis by simp
  next
    case (3 block u st' nb)
    from loop_steps_prefix [OF 3(5)] Suc.prems(5) have nw: "list_all noWrap (upd_calls u)"
      by (auto simp: recordStep_def)
    from 3(3) have ne: "\<not> upd_earlyExit u" and ok: "\<not> v + upd_blocksVisited u > B'"
      by simp_all
    have "upd_blocksVisited u \<noteq> 0
      \<and> (upd_blocksVisited u \<le> B' - v \<or> upd_blocksVisited u = 1)
      \<and> (\<forall>m. interpretBlock n BoundedFlag M block prevBlock currentState m = Done (u, st')
            \<or> (m < upd_blocksVisited u
                \<and> (\<exists>u2 st2. interpretBlock n BoundedFlag M block prevBlock currentState m =
                      Done (u2, st2) \<and> upd_earlyExit u2)))"
      by (rule sim_block [OF _ 3(2) ne nw]) (rule fn; assumption)
    then have sb:
      "upd_blocksVisited u \<le> B' - v \<or> upd_blocksVisited u = 1"
      "\<And>m. interpretBlock n BoundedFlag M block prevBlock currentState m = Done (u, st')
            \<or> (m < upd_blocksVisited u
                \<and> (\<exists>u2 st2. interpretBlock n BoundedFlag M block prevBlock currentState m =
                      Done (u2, st2) \<and> upd_earlyExit u2))"
      by blast+
    have bv: "upd_blocksVisited u \<le> B' - v"
    proof (rule ccontr)
      assume a: "\<not> upd_blocksVisited u \<le> B' - v"
      with sb(1) have one: "upd_blocksVisited u = 1" by simp
      with a have "B' - v = 0" by (auto dest: not_one_le_zero)
      then have "v = B'" by simp
      with Suc.prems(3) less_add_one [of v] one ok show False by simp
    qed
    from add_within_budget [OF Suc.prems(4) bv] have mono: "v \<le> v + upd_blocksVisited u"
      and v1: "v + upd_blocksVisited u \<le> B'" by simp_all
    from Suc.IH [OF 3(5) Suc.prems(2,3) v1 Suc.prems(5)] have ih:
      "v + upd_blocksVisited u \<le> blocksVisited c'"
      "\<And>B. v + upd_blocksVisited u \<le> B \<Longrightarrow>
        (blocksVisited c' \<le> B \<longrightarrow>
           interpretFunction_loop n BoundedFlag M func entry B (Some currentBlock) nb
             (recorded @ [recordStep block u]) st' (v + upd_blocksVisited u) = Done c')
        \<and> (B < blocksVisited c' \<longrightarrow>
             (\<exists>c. interpretFunction_loop n BoundedFlag M func entry B (Some currentBlock) nb
                    (recorded @ [recordStep block u]) st' (v + upd_blocksVisited u) = Done c
                  \<and> earlyExit c))"
      by blast+
    have "(blocksVisited c' \<le> B \<longrightarrow>
           interpretFunction_loop (Suc n) BoundedFlag M func entry B prevBlock currentBlock
             recorded currentState v = Done c')
        \<and> (B < blocksVisited c' \<longrightarrow>
             (\<exists>c. interpretFunction_loop (Suc n) BoundedFlag M func entry B prevBlock
                    currentBlock recorded currentState v = Done c \<and> earlyExit c))"
      if vB: "v \<le> B" for B
      using sb(2) [of "B - v"]
    proof
      assume same: "interpretBlock n BoundedFlag M block prevBlock currentState (B - v) =
                    Done (u, st')"
      show ?thesis
      proof (cases "v + upd_blocksVisited u > B")
        case True
        with ih(1) have "B < blocksVisited c'" by simp
        with True 3(1) same show ?thesis
          by (auto simp: interpretFunction_loop.simps)
      next
        case False
        then have "v + upd_blocksVisited u \<le> B" by simp
        from ih(2) [OF this] False 3(1,4) same ne show ?thesis
          by (simp add: interpretFunction_loop.simps)
      qed
    next
      assume "B - v < upd_blocksVisited u
                \<and> (\<exists>u2 st2. interpretBlock n BoundedFlag M block prevBlock currentState (B - v) =
                      Done (u2, st2) \<and> upd_earlyExit u2)"
      then obtain u2 st2 where less: "\<not> upd_blocksVisited u \<le> B - v"
        and act: "interpretBlock n BoundedFlag M block prevBlock currentState (B - v) =
                      Done (u2, st2)" and early: "upd_earlyExit u2"
        by auto
      from less_add_over_budget [OF vB less Suc.prems(4) bv] ih(1) have "B < blocksVisited c'"
        by simp
      with 3(1) act early show ?thesis
        by (auto simp: interpretFunction_loop.simps)
    qed
    moreover from mono ih(1) have "v \<le> blocksVisited c'" by simp
    ultimately show ?thesis by simp
  qed
qed

lemma sim_function:
  assumes r: "interpretFunction n BoundedFlag M f entry B' = Done c'"
    and ne: "\<not> earlyExit c'" and A: "B' \<noteq> - 1" and nw: "noWrap c'"
  shows "(blocksVisited c' \<le> B \<longrightarrow> interpretFunction n BoundedFlag M f entry B = Done c')
      \<and> (B < blocksVisited c' \<longrightarrow>
           (\<exists>c. interpretFunction n BoundedFlag M f entry B = Done c \<and> earlyExit c))"
proof -
  from r obtain g where g: "map_of M f = Some g"
    and l: "interpretFunction_loop n BoundedFlag M g entry B' None (getEntryBlock g) [] entry 0 =
            Done c'"
    by (auto simp: interpretFunction.simps split: option.splits)
  from nw have "list_all noWrapStep (steps c')" by (cases c') simp
  from sim_loop [OF l ne A _ this] g show ?thesis
    by (simp add: interpretFunction.simps)
qed

text \<open>
  Claim C2 (the step budget), as amended. A run with budget \<open>B\<close> that is not an early
  exit reports at most \<open>B\<close> visits. Early exit is decided by the size of the call tree:
  when the run with some budget \<open>B'\<close> below \<open>2 ^ 32 - 1\<close> completes, with a record \<open>c'\<close> in
  which no call at any depth reports \<open>2 ^ 32 - 1\<close> visits, then with the same fuel the run
  with any budget \<open>B\<close> returns that same record if \<open>blocksVisited c'\<close> is at most \<open>B\<close>, and
  an early exit if it is more than \<open>B\<close>.
\<close>

theorem budget_decides_early_exit:
  "(interpretFunction n BoundedFlag M f entry B = Done c \<longrightarrow> \<not> earlyExit c \<longrightarrow>
      blocksVisited c \<le> B)
   \<and> (interpretFunction n BoundedFlag M f entry B' = Done c' \<longrightarrow> \<not> earlyExit c' \<longrightarrow>
      B' \<noteq> - 1 \<longrightarrow> noWrap c' \<longrightarrow>
        (blocksVisited c' \<le> B \<longrightarrow> interpretFunction n BoundedFlag M f entry B = Done c')
        \<and> (B < blocksVisited c' \<longrightarrow>
             (\<exists>d. interpretFunction n BoundedFlag M f entry B = Done d \<and> earlyExit d)))"
  using function_within_budget [of n BoundedFlag M f entry B c]
    sim_function [of n BoundedFlag M f entry B' c' B]
  by blast

theorem budget_decides_early_exit_witness:
  "interpretFunction 10 False module_f_recursive 10 entry_a1 5 = Done complete_call
   \<and> \<not> earlyExit complete_call \<and> noWrap complete_call
   \<and> blocksVisited complete_call = 5
   \<and> blocksVisited complete_call \<le> 5
   \<and> interpretFunction 10 False module_f_recursive 10 entry_a1 7 = Done complete_call
   \<and> (\<exists>d. interpretFunction 10 False module_f_recursive 10 entry_a1 4 = Done d \<and> earlyExit d)"
proof -
  have run: "interpretFunction 10 False module_f_recursive 10 entry_a1 5 = Done complete_call"
    by (simp add: module_defs complete_call_def eval_defs run_defs cong: weak_congs)
  have c: "\<not> earlyExit complete_call" "noWrap complete_call" "blocksVisited complete_call = 5"
    by (simp_all add: complete_call_def)
  have b: "(5::32 word) \<noteq> - 1" "(5::32 word) \<le> 7" "(4::32 word) < 5"
    by simp_all
  note inst = budget_decides_early_exit
    [where n = 10 and BoundedFlag = False and M = module_f_recursive and f = 10
      and entry = entry_a1 and B' = 5 and c' = complete_call]
  from inst [where B = 5 and c = complete_call, THEN conjunct1, rule_format, OF run c(1)]
  have A: "blocksVisited complete_call \<le> 5" .
  from inst [where B = 7, THEN conjunct2, rule_format, OF run c(1) b(1) c(2), THEN conjunct1]
    c(3) b(2)
  have B: "interpretFunction 10 False module_f_recursive 10 entry_a1 7 = Done complete_call"
    by simp
  from inst [where B = 4, THEN conjunct2, rule_format, OF run c(1) b(1) c(2), THEN conjunct2]
    c(3) b(3)
  have C: "\<exists>d. interpretFunction 10 False module_f_recursive 10 entry_a1 4 = Done d \<and> earlyExit d"
    by simp
  show ?thesis
    using run c A B C by simp
qed

text \<open>
  The budget is checked after a block has been visited, so an early exit reports more
  visits than the budget. With budget 2 the call in \<open>rec\<close> gets the budget 0, visits its
  entry block and exits early; the record of \<open>f\<close> reports three visits.
\<close>

theorem early_exit_overshoots_budget:
  "interpretFunction 10 False module_f_recursive 10 entry_a1 2 = Done (truncated_call 3)
   \<and> blocksVisited (truncated_call 3) = 3
   \<and> \<not> blocksVisited (truncated_call 3) \<le> 2"
  by (simp add: module_defs truncated_call_def eval_defs run_defs cong: weak_congs)

section \<open>Decoding\<close>

lemma cborToMap_loop_pred:
  assumes "cborToMap_loop keyFun valFun handle m = Inr r"
    and "\<And>x k. keyFun x = Inr k \<Longrightarrow> P k"
    and "\<And>x v. valFun x = Inr v \<Longrightarrow> Q v"
    and "\<forall>(k, v) \<in> set m. P k \<and> Q v"
  shows "\<forall>(k, v) \<in> set r. P k \<and> Q v"
  using assms(1,4)
proof (induction "handle" arbitrary: m)
  case Nil
  then show ?case by simp
next
  case (Cons p "handle")
  obtain a b where p: "p = (a, b)" by (cases p)
  from Cons.prems(1) obtain key val where kv: "keyFun a = Inr key" "valFun b = Inr val"
    and loop: "cborToMap_loop keyFun valFun handle (map_insert key val m) = Inr r"
    by (auto simp: p bind_result_def split: sum.splits)
  have "\<forall>(k, v) \<in> set (map_insert key val m). P k \<and> Q v"
    using Cons.prems(2) assms(2) [OF kv(1)] assms(3) [OF kv(2)]
    by (auto simp: map_insert_def split: option.splits)
  from Cons.IH [OF loop this] show ?case .
qed

lemma Integer_of_string_unbounded:
  "Integer_of_string s = Inr x \<Longrightarrow> \<exists>i. x = Unbounded i"
  by (auto simp: Integer_of_string_def split: option.splits)

lemma cborToVarVal_unbounded:
  "cborToVarVal item = Inr (Some (VarInt x)) \<Longrightarrow> \<exists>i. x = Unbounded i"
  by (cases item rule: cborToVarVal.cases)
    (auto simp: bind_result_def dest: Integer_of_string_unbounded split: sum.splits)

lemma cborToState_unbounded:
  assumes "cborToState item = Inr st"
  shows "(\<forall>(k, v) \<in> set (heap st). (\<exists>i. k = Unbounded i) \<and> (\<exists>j. v = Unbounded j))
       \<and> (\<forall>(n, v) \<in> set (variables st). \<forall>x. v = Some (VarInt x) \<longrightarrow> (\<exists>i. x = Unbounded i))"
proof (cases item rule: cborToState.cases)
  case (1 k0 cborVariables k1 cborHeap)
  with assms obtain vs h where
    vs: "cborToMap cborToString cborToVarVal cborVariables = Inr vs"
    and h: "cborToMap (\<lambda>item. bind_result (cborToString item) Integer_of_string)
              cborToVarIntVal cborHeap = Inr h"
    and st: "st = State vs h"
    by (auto simp: bind_result_def split: sum.splits)
  from h obtain hh where hh: "cborHeap = CborMap hh"
    by (cases cborHeap) auto
  from vs obtain vv where vv: "cborVariables = CborMap vv"
    by (cases cborVariables) auto
  have "\<forall>(k, v) \<in> set h. (\<exists>i. k = Unbounded i) \<and> (\<exists>j. v = Unbounded j)"
    using h unfolding hh cborToMap.simps
    by (rule cborToMap_loop_pred)
      (auto simp: bind_result_def cborToVarIntVal_def dest: Integer_of_string_unbounded
        split: sum.splits)
  moreover have "\<forall>(n, v) \<in> set vs. True \<and> (\<forall>x. v = Some (VarInt x) \<longrightarrow> (\<exists>i. x = Unbounded i))"
    using vs unfolding vv cborToMap.simps
    by (rule cborToMap_loop_pred) (auto dest: cborToVarVal_unbounded)
  ultimately show ?thesis
    by (auto simp: st)
qed (use assms in auto)

lemmas codec_defs =
  mpz_set_str_def mpz_get_str_def digit_value_def isspace_def c_str_def cbor_build_string_def
  Integer_of_string_def cborToVarIntVal_def cborToKeyMap_def array_at_def digit_char_def
  Integer_get_str_def valueName_def stateToCBOR_def heapToCBOR_def

lemma decode_example_state:
  "cborToState
     (CborMap
        [(CborString True ''variables'',
          CborMap [(CborString True ''x'', CborString True ''-12''),
                   (CborString True ''b'', CborBool True)]),
         (CborString True ''heap'',
          CborMap [(CborString True ''5'',
                    CborString True ''340282366920938463463374607431768211456'')])]) =
   Inr (State [(''x'', Some (VarInt (Unbounded (- 12)))), (''b'', Some (VarBool True))]
          [(Unbounded 5, Unbounded (2 ^ 128))])"
  by (simp add: codec_defs eval_defs)

text \<open>
  Claim C10 (decoding is unbounded). No decoder takes the mode. \<open>cborToVarVal\<close> maps a
  boolean to a boolean value, a definite string that \<^verbatim>\<open>mpz_class\<close> accepts to the
  unbounded integer it denotes (one it rejects is \<^verbatim>\<open>std::invalid_argument\<close>), and any
  other item to null; every heap address, heap value and integer variable of a state
  that \<open>cborToState\<close> returns is unbounded.
\<close>

theorem decoding_yields_unbounded_integers:
  "cborToVarVal (CborBool b) = Inr (Some (VarBool b))
   \<and> cborToVarVal (CborString True s) =
       (case mpz_set_str s of
          None \<Rightarrow> Inl InvalidArgument
        | Some i \<Rightarrow> Inr (Some (VarInt (Unbounded i))))
   \<and> ((\<forall>b. item \<noteq> CborBool b) \<and> (\<forall>s. item \<noteq> CborString True s) \<longrightarrow>
        cborToVarVal item = Inr None)
   \<and> (cborToState item' = Inr st \<longrightarrow>
        (\<forall>(k, v) \<in> set (heap st). (\<exists>i. k = Unbounded i) \<and> (\<exists>j. v = Unbounded j))
        \<and> (\<forall>(n, v) \<in> set (variables st).
              \<forall>x. v = Some (VarInt x) \<longrightarrow> (\<exists>i. x = Unbounded i)))"
proof (intro conjI impI)
  show "cborToVarVal (CborString True s) =
       (case mpz_set_str s of
          None \<Rightarrow> Inl InvalidArgument
        | Some i \<Rightarrow> Inr (Some (VarInt (Unbounded i))))"
    by (simp add: Integer_of_string_def bind_result_def split: option.splits)
next
  assume "(\<forall>b. item \<noteq> CborBool b) \<and> (\<forall>s. item \<noteq> CborString True s)"
  then show "cborToVarVal item = Inr None"
    by (cases item rule: cborToVarVal.cases) auto
next
  assume "cborToState item' = Inr st"
  then show "\<forall>(k, v) \<in> set (heap st). (\<exists>i. k = Unbounded i) \<and> (\<exists>j. v = Unbounded j)"
    using cborToState_unbounded by blast
next
  assume "cborToState item' = Inr st"
  then show "\<forall>(n, v) \<in> set (variables st). \<forall>x. v = Some (VarInt x) \<longrightarrow> (\<exists>i. x = Unbounded i)"
    using cborToState_unbounded by blast
qed simp


theorem decoding_yields_unbounded_integers_witness:
  "cborToVarVal (CborArray []) = Inr None
   \<and> cborToState
       (CborMap
          [(CborString True ''variables'',
            CborMap [(CborString True ''x'', CborString True ''-12''),
                     (CborString True ''b'', CborBool True)]),
           (CborString True ''heap'',
            CborMap [(CborString True ''5'',
                      CborString True ''340282366920938463463374607431768211456'')])]) =
     Inr (State [(''x'', Some (VarInt (Unbounded (- 12)))), (''b'', Some (VarBool True))]
            [(Unbounded 5, Unbounded (2 ^ 128))])
   \<and> (\<exists>i. Unbounded (2 ^ 128) = Unbounded i)"
proof -
  note inst = decoding_yields_unbounded_integers
    [where item = "CborArray []"
       and item' = "CborMap
          [(CborString True ''variables'',
            CborMap [(CborString True ''x'', CborString True ''-12''),
                     (CborString True ''b'', CborBool True)]),
           (CborString True ''heap'',
            CborMap [(CborString True ''5'',
                      CborString True ''340282366920938463463374607431768211456'')])]"
       and st = "State [(''x'', Some (VarInt (Unbounded (- 12)))), (''b'', Some (VarBool True))]
            [(Unbounded 5, Unbounded (2 ^ 128))]"]
  have other: "(\<forall>b. CborArray [] \<noteq> CborBool b) \<and> (\<forall>s. CborArray [] \<noteq> CborString True s)"
    by simp
  from inst [THEN conjunct2, THEN conjunct2, THEN conjunct1, rule_format, OF other]
  have A: "cborToVarVal (CborArray []) = Inr None" .
  from inst [THEN conjunct2, THEN conjunct2, THEN conjunct2, rule_format, OF decode_example_state]
  have B: "\<exists>i. Unbounded (2 ^ 128) = Unbounded i"
    by simp
  show ?thesis
    using A decode_example_state B by (intro conjI)
qed

section \<open>Decimal text\<close>

lemma digit_value_digit_char: "d < 10 \<Longrightarrow> digit_value (digit_char d) = Some d"
  by (simp add: digit_value_def digit_char_def)

lemma of_char_digit_char: "d < 10 \<Longrightarrow> of_char (digit_char d) = (48 + d :: nat)"
  by (simp add: digit_char_def)

lemma isspace_digit_char: "d < 10 \<Longrightarrow> \<not> isspace (digit_char d)"
proof
  assume d: "d < 10" and "isspace (digit_char d)"
  then have "(of_char (digit_char d) :: nat) \<in> of_char ` set [CHR '' '', CHR 0x09, CHR 0x0A, CHR 0x0B, CHR 0x0C, CHR 0x0D]"
    unfolding isspace_def by (rule_tac imageI)
  with d show False
    by (simp add: of_char_digit_char)
qed

lemma digit_char_not_nul: "d < 10 \<Longrightarrow> digit_char d \<noteq> CHR 0x00"
proof
  assume d: "d < 10" and "digit_char d = CHR 0x00"
  then have "(of_char (digit_char d) :: nat) = of_char (CHR 0x00)" by simp
  with d show False by (simp add: of_char_digit_char)
qed

lemma digit_char_not_minus: "d < 10 \<Longrightarrow> digit_char d \<noteq> CHR ''-''"
proof
  assume d: "d < 10" and "digit_char d = CHR ''-''"
  then have "(of_char (digit_char d) :: nat) = of_char (CHR ''-'')" by simp
  with d show False by (simp add: of_char_digit_char)
qed

lemma minus_facts: "\<not> isspace CHR ''-''" "CHR ''-'' \<noteq> CHR 0x00" "digit_value CHR ''-'' = None"
  by (simp_all add: isspace_def digit_value_def)

lemma read_digits_append:
  "read_digits acc (xs @ ys) =
     (case read_digits acc xs of None \<Rightarrow> None | Some a \<Rightarrow> read_digits a ys)"
  by (induction xs arbitrary: acc) (auto split: option.splits)

lemma read_digits_digits: "read_digits 0 (digits n) = Some n"
proof (induction n rule: digits.induct)
  case (1 n)
  show ?case
  proof (cases "n < 10")
    case True
    then show ?thesis
      by (subst digits.simps) (simp add: isspace_digit_char digit_value_digit_char)
  next
    case False
    then have "read_digits 0 (digits (n div 10)) = Some (n div 10)"
      using 1 by simp
    with False show ?thesis
      by (subst digits.simps)
        (simp add: read_digits_append isspace_digit_char digit_value_digit_char)
  qed
qed

lemma digits_chars: "c \<in> set (digits n) \<Longrightarrow> \<exists>d < 10. c = digit_char d"
proof (induction n rule: digits.induct)
  case (1 n)
  show ?case
  proof (cases "n < 10")
    case True
    with "1.prems" show ?thesis
      by (subst (asm) digits.simps) auto
  next
    case False
    with "1.prems" have "c \<in> set (digits (n div 10)) \<or> c = digit_char (n mod 10)"
      by (subst (asm) digits.simps) auto
    then show ?thesis
    proof
      assume "c \<in> set (digits (n div 10))"
      with 1 False show ?thesis by simp
    next
      assume "c = digit_char (n mod 10)"
      then show ?thesis by (intro exI [of _ "n mod 10"]) simp
    qed
  qed
qed

lemma digits_Cons: "\<exists>d rest. d < 10 \<and> digits n = digit_char d # rest"
proof (induction n rule: digits.induct)
  case (1 n)
  show ?case
  proof (cases "n < 10")
    case True
    then show ?thesis
      by (subst digits.simps) auto
  next
    case False
    with 1 obtain d rest where "d < 10" "digits (n div 10) = digit_char d # rest"
      by auto
    with False show ?thesis
      by (subst digits.simps) auto
  qed
qed

lemma c_str_digits: "c_str (digits n) = digits n"
  unfolding c_str_def
  by (rule takeWhile_eq_all_conv [THEN iffD2]) (auto dest!: digits_chars simp: digit_char_not_nul)

lemma c_str_mpz_get_str: "c_str (mpz_get_str i) = mpz_get_str i"
  using c_str_digits [of "nat i"] c_str_digits [of "nat (- i)"]
  by (simp add: mpz_get_str_def c_str_def)

lemma mpz_set_str_get_str: "mpz_set_str (mpz_get_str i) = Some i"
proof (cases "i < 0")
  case True
  obtain d rest where d: "d < 10" "digits (nat (- i)) = digit_char d # rest"
    using digits_Cons by blast
  have "read_digits 0 (digit_char d # rest) = Some (nat (- i))"
    using read_digits_digits [of "nat (- i)"] d by simp
  with True d show ?thesis
    using c_str_mpz_get_str [of i]
    by (simp add: mpz_set_str_def mpz_get_str_def minus_facts digit_value_digit_char)
next
  case False
  obtain d rest where d: "d < 10" "digits (nat i) = digit_char d # rest"
    using digits_Cons by blast
  have "read_digits 0 (digit_char d # rest) = Some (nat i)"
    using read_digits_digits [of "nat i"] d by simp
  with False d show ?thesis
    using c_str_mpz_get_str [of i]
    by (simp add: mpz_set_str_def mpz_get_str_def isspace_digit_char digit_char_not_minus
        digit_value_digit_char)
qed


section \<open>Encoding and decoding a state\<close>

lemma Integer_roundtrip:
  "isUnbounded x \<Longrightarrow>
   bind_result (cborToString (cbor_build_string (Integer_get_str x))) Integer_of_string = Inr x"
  by (cases x)
    (simp_all add: cbor_build_string_def Integer_get_str_def c_str_mpz_get_str
      Integer_of_string_def mpz_set_str_get_str bind_result_simps)

lemma VarVal_roundtrip:
  "wire_value v \<Longrightarrow> \<exists>val. v = Some val \<and> cborToVarVal (VarVal_toCBOR val) = Inr v"
proof (cases v rule: wire_value.cases)
  case (2 i)
  assume "wire_value v"
  with 2 obtain n where "i = Unbounded n" by (cases i) auto
  with 2 show ?thesis
    by (simp add: cbor_build_string_def Integer_get_str_def c_str_mpz_get_str
        Integer_of_string_def mpz_set_str_get_str bind_result_simps)
qed auto

lemma variables_roundtrip:
  assumes "distinct (map (\<lambda>(k, v). valueName getName k) vars)"
    and "list_all (\<lambda>(k, v). c_str (valueName getName k) = valueName getName k \<and> wire_value v) vars"
  shows "\<exists>ps. variablesToCBOR getName vars = Inr ps
           \<and> (\<forall>m. (\<forall>(k, v) \<in> set vars. map_of m (valueName getName k) = None) \<longrightarrow>
                 cborToMap_loop cborToString cborToVarVal ps m =
                   Inr (m @ map (\<lambda>(k, v). (valueName getName k, v)) vars))"
  using assms
proof (induction vars)
  case Nil
  then show ?case by simp
next
  case (Cons p vars)
  obtain k v where p: "p = (k, v)" by (cases p)
  from Cons.prems p obtain val where v: "v = Some val" "cborToVarVal (VarVal_toCBOR val) = Inr v"
    using VarVal_roundtrip [of v] by auto
  from Cons.prems p have name: "c_str (valueName getName k) = valueName getName k"
    by simp
  from Cons obtain ps where ps: "variablesToCBOR getName vars = Inr ps"
    and loop: "\<And>m. (\<forall>(k, v) \<in> set vars. map_of m (valueName getName k) = None) \<Longrightarrow>
                 cborToMap_loop cborToString cborToVarVal ps m =
                   Inr (m @ map (\<lambda>(k, v). (valueName getName k, v)) vars)"
    by auto
  have fresh: "\<forall>(k', v') \<in> set vars. valueName getName k' \<noteq> valueName getName k"
    using Cons.prems(1) p by (auto simp: image_iff)
  show ?case
  proof (intro exI conjI allI impI)
    show "variablesToCBOR getName (p # vars) =
            Inr ((cbor_build_string (valueName getName k), VarVal_toCBOR val) # ps)"
      by (simp add: p v ps)
  next
    fix m :: "(string, VarVal option) std_map"
    assume m: "\<forall>(k, v) \<in> set (p # vars). map_of m (valueName getName k) = None"
    then have absent: "map_of m (valueName getName k) = None"
      by (simp add: p)
    have "\<forall>(k', v') \<in> set vars.
            map_of (m @ [(valueName getName k, v)]) (valueName getName k') = None"
      using m fresh by (fastforce simp: map_add_def p split: option.splits)
    from loop [OF this] absent
    show "cborToMap_loop cborToString cborToVarVal
            ((cbor_build_string (valueName getName k), VarVal_toCBOR val) # ps) m =
          Inr (m @ map (\<lambda>(k, v). (valueName getName k, v)) (p # vars))"
      by (simp add: p v cbor_build_string_def name bind_result_simps map_insert_def)
  qed
qed

lemma heap_roundtrip:
  assumes "distinct (map fst h)"
    and "list_all (\<lambda>(k, v). isUnbounded k \<and> isUnbounded v) h"
    and "\<forall>(k, v) \<in> set h. map_of m k = None"
  shows "cborToMap_loop (\<lambda>item. bind_result (cborToString item) Integer_of_string)
           cborToVarIntVal (heapToCBOR h) m = Inr (m @ h)"
  using assms
proof (induction h arbitrary: m)
  case Nil
  then show ?case by (simp add: heapToCBOR_def)
next
  case (Cons p h)
  obtain k v where p: "p = (k, v)" by (cases p)
  from Cons.prems p have kv: "isUnbounded k" "isUnbounded v" by auto
  have fresh: "\<forall>(k', v') \<in> set h. map_of (m @ [(k, v)]) k' = None"
    using Cons.prems(1,3) p by (fastforce simp: map_add_def image_iff split: option.splits)
  have "cborToMap_loop (\<lambda>item. bind_result (cborToString item) Integer_of_string)
          cborToVarIntVal (heapToCBOR h) (m @ [(k, v)]) = Inr ((m @ [(k, v)]) @ h)"
    using Cons.prems p by (intro Cons.IH fresh) auto
  moreover have "map_of m k = None"
    using Cons.prems(3) p by simp
  moreover have "cborToVarIntVal (cbor_build_string (Integer_get_str v)) = Inr v"
    using Integer_roundtrip [OF kv(2)] by (simp add: cborToVarIntVal_def)
  ultimately show ?case
    using Integer_roundtrip [OF kv(1)]
    by (simp add: p heapToCBOR_def bind_result_simps map_insert_def)
qed

lemma state_roundtrip:
  assumes "wire_state getName st"
  shows "\<exists>item. stateToCBOR getName st = Inr item
           \<and> cborToState item = Inr (rename_state (valueName getName) st)"
proof -
  from assms obtain ps where ps: "variablesToCBOR getName (variables st) = Inr ps"
    and loop: "cborToMap_loop cborToString cborToVarVal ps [] =
                 Inr (map (\<lambda>(k, v). (valueName getName k, v)) (variables st))"
    using variables_roundtrip [of getName "variables st"]
    by (fastforce simp: wire_state_def)
  have h: "cborToMap_loop (\<lambda>item. bind_result (cborToString item) Integer_of_string)
             cborToVarIntVal (heapToCBOR (heap st)) [] = Inr (heap st)"
    using assms heap_roundtrip [of "heap st" "[]"] by (simp add: wire_state_def)
  show ?thesis
    by (simp add: stateToCBOR_def ps bind_result_simps loop h rename_state_def)
qed


section \<open>Encoding and decoding a trace\<close>

lemma decode_call_map:
  assumes "cborToState e = Inr entry" "cborToState r = Inr ret"
    and "cborToVector_BlockStep xs = Inr ss" "c_str f = f"
  shows "cborToCall (CborMap
           [(cbor_build_string ''function_name'', cbor_build_string f),
            (cbor_build_string ''entry_state'', e),
            (cbor_build_string ''return_state'', r),
            (cbor_build_string ''steps'', CborArray xs),
            (cbor_build_string ''early_exit'', CborBool early),
            (cbor_build_string ''blocks_visited'', CborUInt32 visited)]) =
         Inr (Call f entry ret ss early visited)"
  using assms
  by (simp add: cborToKeyMap_def cbor_build_string_def c_str_def map_insert_def map_at_def
      array_at_def bind_result_simps)

lemma decode_step_map:
  assumes "cborToState e = Inr st" "cborToVector_Call xs = Inr cs" "c_str b = b"
  shows "cborToBlockStep (CborMap
           [(cbor_build_string ''block_name'', cbor_build_string b),
            (cbor_build_string ''state'', e),
            (cbor_build_string ''calls'', CborArray xs)]) =
         Inr (BlockStep b st cs)"
  using assms
  by (simp add: cborToKeyMap_def cbor_build_string_def c_str_def map_insert_def map_at_def
      array_at_def bind_result_simps)

lemma trace_roundtrip:
  "(wire_call getName c \<longrightarrow>
      (\<exists>item. Call_toCBOR getName c = Inr item
         \<and> cborToCall item = Inr (rename_call (valueName getName) c)))"
  "(wire_step getName s \<longrightarrow>
      (\<exists>item. BlockStep_toCBOR getName s = Inr item
         \<and> cborToBlockStep item = Inr (rename_step (valueName getName) s)))"
  "(list_all (wire_step getName) ss \<longrightarrow>
      (\<exists>items. steps_toCBOR getName ss = Inr items
         \<and> cborToVector_BlockStep items = Inr (map (rename_step (valueName getName)) ss)))"
  "(list_all (wire_call getName) cs \<longrightarrow>
      (\<exists>items. calls_toCBOR getName cs = Inr items
         \<and> cborToVector_Call items = Inr (map (rename_call (valueName getName)) cs)))"
proof (induction getName c and getName s and getName ss and getName cs
    rule: Call_toCBOR_BlockStep_toCBOR_steps_toCBOR_calls_toCBOR.induct)
  case (1 getName name entry ret ss early visited)
  show ?case
  proof
    assume w: "wire_call getName (Call name entry ret ss early visited)"
    then obtain e where e: "stateToCBOR getName entry = Inr e"
      "cborToState e = Inr (rename_state (valueName getName) entry)"
      using state_roundtrip [of getName entry] by auto
    from w obtain r where r: "stateToCBOR getName ret = Inr r"
      "cborToState r = Inr (rename_state (valueName getName) ret)"
      using state_roundtrip [of getName ret] by auto
    from w "1.IH" [OF e(1) r(1)] obtain xs where xs: "steps_toCBOR getName ss = Inr xs"
      "cborToVector_BlockStep xs = Inr (map (rename_step (valueName getName)) ss)"
      by auto
    from w have "c_str name = name" by simp
    from decode_call_map [OF e(2) r(2) xs(2) this, of early visited]
    show "\<exists>item. Call_toCBOR getName (Call name entry ret ss early visited) = Inr item
            \<and> cborToCall item =
                Inr (rename_call (valueName getName) (Call name entry ret ss early visited))"
      by (simp add: e r xs)
  qed
next
  case (2 getName name st cs)
  show ?case
  proof
    assume w: "wire_step getName (BlockStep name st cs)"
    then obtain e where e: "stateToCBOR getName st = Inr e"
      "cborToState e = Inr (rename_state (valueName getName) st)"
      using state_roundtrip [of getName st] by auto
    from w "2.IH" [OF e(1)] obtain xs where xs: "calls_toCBOR getName cs = Inr xs"
      "cborToVector_Call xs = Inr (map (rename_call (valueName getName)) cs)"
      by auto
    from w have "c_str name = name" by simp
    from decode_step_map [OF e(2) xs(2) this]
    show "\<exists>item. BlockStep_toCBOR getName (BlockStep name st cs) = Inr item
            \<and> cborToBlockStep item =
                Inr (rename_step (valueName getName) (BlockStep name st cs))"
      by (simp add: e xs)
  qed
next
  case (3 getName)
  show ?case by simp
next
  case (4 getName s ss)
  show ?case
  proof
    assume w: "list_all (wire_step getName) (s # ss)"
    with "4.IH"(1) obtain x where x: "BlockStep_toCBOR getName s = Inr x"
      "cborToBlockStep x = Inr (rename_step (valueName getName) s)"
      by auto
    from w "4.IH"(2) [OF x(1)] obtain xs where xs: "steps_toCBOR getName ss = Inr xs"
      "cborToVector_BlockStep xs = Inr (map (rename_step (valueName getName)) ss)"
      by auto
    show "\<exists>items. steps_toCBOR getName (s # ss) = Inr items
            \<and> cborToVector_BlockStep items =
                Inr (map (rename_step (valueName getName)) (s # ss))"
      by (simp add: x xs)
  qed
next
  case (5 getName)
  show ?case by simp
next
  case (6 getName c cs)
  show ?case
  proof
    assume w: "list_all (wire_call getName) (c # cs)"
    with "6.IH"(1) obtain x where x: "Call_toCBOR getName c = Inr x"
      "cborToCall x = Inr (rename_call (valueName getName) c)"
      by auto
    from w "6.IH"(2) [OF x(1)] obtain xs where xs: "calls_toCBOR getName cs = Inr xs"
      "cborToVector_Call xs = Inr (map (rename_call (valueName getName)) cs)"
      by auto
    show "\<exists>items. calls_toCBOR getName (c # cs) = Inr items
            \<and> cborToVector_Call items =
                Inr (map (rename_call (valueName getName)) (c # cs))"
      by (simp add: x xs)
  qed
qed

lemma varValEq_refl: "wire_value (Some v) \<Longrightarrow> varValEq v v = Inr True"
  by (cases "Some v" rule: wire_value.cases)
    (auto simp: varValEq_def cmp_Integer_def elim: isUnbounded.elims)

text \<open>
  Claim C4 (wire round trip), as amended. For a trace that satisfies \<open>wire_call\<close>
  (every integer unbounded, no null binding, names distinct in each state and free of
  NUL), encoding succeeds and decoding the result yields the trace with every key
  replaced by its name, equal in every field; integers of any size come back as they
  were, and \<open>varValEq\<close> holds of every value with itself.
\<close>

theorem wire_roundtrip_of_unbounded_traces:
  "wire_call getName c \<Longrightarrow>
   (\<exists>item. Call_toCBOR getName c = Inr item
      \<and> cborToCall item = Inr (rename_call (valueName getName) c))
   \<and> (\<forall>v. wire_value (Some v) \<longrightarrow> varValEq v v = Inr True)"
  using trace_roundtrip(1) [of getName c] varValEq_refl by blast

theorem wire_roundtrip_of_unbounded_traces_witness:
  "wire_call (\<lambda>a. if a = 1 then ''a'' else ''c'')
     (Call ''f'' (State [(Ptr 1, Some (VarInt (Unbounded (2 ^ 100))))] [])
        (State [(Ptr 1, Some (VarInt (Unbounded (2 ^ 100)))), (Ptr 2, Some (VarBool True)),
                (ReturnName, Some (VarInt (Unbounded (- 12))))] [(Unbounded 5, Unbounded 7)])
        [BlockStep ''entry'' (State [(Ptr 1, Some (VarInt (Unbounded (2 ^ 100))))] []) []]
        False 1)
   \<and> (\<exists>item.
        Call_toCBOR (\<lambda>a. if a = 1 then ''a'' else ''c'')
          (Call ''f'' (State [(Ptr 1, Some (VarInt (Unbounded (2 ^ 100))))] [])
             (State [(Ptr 1, Some (VarInt (Unbounded (2 ^ 100)))), (Ptr 2, Some (VarBool True)),
                     (ReturnName, Some (VarInt (Unbounded (- 12))))] [(Unbounded 5, Unbounded 7)])
             [BlockStep ''entry'' (State [(Ptr 1, Some (VarInt (Unbounded (2 ^ 100))))] []) []]
             False 1) = Inr item
        \<and> cborToCall item =
            Inr (Call ''f'' (State [(''a'', Some (VarInt (Unbounded (2 ^ 100))))] [])
                   (State [(''a'', Some (VarInt (Unbounded (2 ^ 100)))),
                           (''c'', Some (VarBool True)),
                           (''return'', Some (VarInt (Unbounded (- 12))))]
                      [(Unbounded 5, Unbounded 7)])
                   [BlockStep ''entry''
                      (State [(''a'', Some (VarInt (Unbounded (2 ^ 100))))] []) []]
                   False 1))"
proof -
  let ?gn = "\<lambda>a::nat. if a = 1 then ''a'' else ''c''"
  let ?c = "Call ''f'' (State [(Ptr 1, Some (VarInt (Unbounded (2 ^ 100))))] [])
        (State [(Ptr 1, Some (VarInt (Unbounded (2 ^ 100)))), (Ptr 2, Some (VarBool True)),
                (ReturnName, Some (VarInt (Unbounded (- 12))))] [(Unbounded 5, Unbounded 7)])
        [BlockStep ''entry'' (State [(Ptr 1, Some (VarInt (Unbounded (2 ^ 100))))] []) []]
        False 1"
  have w: "wire_call ?gn ?c"
    by (simp add: wire_state_def valueName_def c_str_def ReturnName_def)
  from wire_roundtrip_of_unbounded_traces [OF w, THEN conjunct1]
  have "\<exists>item. Call_toCBOR ?gn ?c = Inr item
          \<and> cborToCall item = Inr (rename_call (valueName ?gn) ?c)" .
  then have "\<exists>item. Call_toCBOR ?gn ?c = Inr item
          \<and> cborToCall item =
            Inr (Call ''f'' (State [(''a'', Some (VarInt (Unbounded (2 ^ 100))))] [])
                   (State [(''a'', Some (VarInt (Unbounded (2 ^ 100)))),
                           (''c'', Some (VarBool True)),
                           (''return'', Some (VarInt (Unbounded (- 12))))]
                      [(Unbounded 5, Unbounded 7)])
                   [BlockStep ''entry''
                      (State [(''a'', Some (VarInt (Unbounded (2 ^ 100))))] []) []]
                   False 1)"
    by (simp add: rename_state_def valueName_def ReturnName_def)
  with w show ?thesis
    by (intro conjI)
qed

lemma encode_bounded_call:
  "Call_toCBOR (\<lambda>a. ''x'')
     (Call ''f'' (State [(Ptr 1, Some (VarInt (Bounded (APInt 32 5))))] [])
        (State [(Ptr 1, Some (VarInt (Bounded (APInt 32 5))))] []) [] False 0) =
   Inr (CborMap
     [(CborString True ''function_name'', CborString True ''f''),
      (CborString True ''entry_state'',
       CborMap [(CborString True ''variables'',
                 CborMap [(CborString True ''x'', CborString True ''5'')]),
                (CborString True ''heap'', CborMap [])]),
      (CborString True ''return_state'',
       CborMap [(CborString True ''variables'',
                 CborMap [(CborString True ''x'', CborString True ''5'')]),
                (CborString True ''heap'', CborMap [])]),
      (CborString True ''steps'', CborArray []),
      (CborString True ''early_exit'', CborBool False),
      (CborString True ''blocks_visited'', CborUInt32 0)])"
  by (simp add: codec_defs eval_defs digits.simps char_of_def bit_0)

lemma decode_bounded_call:
  "cborToCall (CborMap
     [(CborString True ''function_name'', CborString True ''f''),
      (CborString True ''entry_state'',
       CborMap [(CborString True ''variables'',
                 CborMap [(CborString True ''x'', CborString True ''5'')]),
                (CborString True ''heap'', CborMap [])]),
      (CborString True ''return_state'',
       CborMap [(CborString True ''variables'',
                 CborMap [(CborString True ''x'', CborString True ''5'')]),
                (CborString True ''heap'', CborMap [])]),
      (CborString True ''steps'', CborArray []),
      (CborString True ''early_exit'', CborBool False),
      (CborString True ''blocks_visited'', CborUInt32 0)]) =
   Inr (Call ''f'' (State [(''x'', Some (VarInt (Unbounded 5)))] [])
          (State [(''x'', Some (VarInt (Unbounded 5)))] []) [] False 0)"
  by (simp add: codec_defs eval_defs)

text \<open>
  Claim C4 as stated fails on a trace of a bounded run: the 32-bit value 5 is written
  as the text \<^verbatim>\<open>5\<close> and read back as the unbounded 5, which is another value, and on
  which \<open>varValEq\<close> does not answer \<open>true\<close>.
\<close>

theorem wire_roundtrip_loses_bounded_integers:
  "bind_result
     (Call_toCBOR (\<lambda>a. ''x'')
        (Call ''f'' (State [(Ptr 1, Some (VarInt (Bounded (APInt 32 5))))] [])
           (State [(Ptr 1, Some (VarInt (Bounded (APInt 32 5))))] []) [] False 0))
     cborToCall =
   Inr (Call ''f'' (State [(''x'', Some (VarInt (Unbounded 5)))] [])
          (State [(''x'', Some (VarInt (Unbounded 5)))] []) [] False 0)
   \<and> rename_call (valueName (\<lambda>a. ''x''))
       (Call ''f'' (State [(Ptr 1, Some (VarInt (Bounded (APInt 32 5))))] [])
          (State [(Ptr 1, Some (VarInt (Bounded (APInt 32 5))))] []) [] False 0) \<noteq>
     Call ''f'' (State [(''x'', Some (VarInt (Unbounded 5)))] [])
       (State [(''x'', Some (VarInt (Unbounded 5)))] []) [] False 0
   \<and> varValEq (VarInt (Bounded (APInt 32 5))) (VarInt (Unbounded 5)) \<noteq> Inr True"
  by (simp only: encode_bounded_call decode_bounded_call bind_result_simps)
    (simp add: rename_state_def varValEq_def cmp_Integer_def)

end
